theory Spec2Isabelle
  imports Main "HOL-Library.Sublist" "HOL-Library.Multiset"
begin

section \<open>The subprocess service manager of blinksocks-gui\<close>

text \<open>
  A shallow embedding of \<^verbatim>\<open>src/core/src/utils/service_manager.js\<close>: the message queue of a
  forked worker, the polling correlation of replies (\<^verbatim>\<open>send\<close>, \<^verbatim>\<open>scanQueue\<close>,
  \<^verbatim>\<open>consume\<close>) and the registry \<^verbatim>\<open>subprocesses\<close> with its five operations.

  The worker is an external process. What it emits is an input of the model: the messages
  that arrive between two turns of the poll loop are given as a list of batches
  (\<open>arrivals\<close>). When the batches are used up the worker stays silent for ever, and a call
  that found no reply by then is \<open>Pending\<close> for ever.

  The theory has the module at two levels. The functions \<open>start\<close>, \<open>stop\<close>,
  \<open>getServiceInfo\<close>, \<open>getServices\<close> and \<open>getMetrics\<close> are one call each, run on its own from
  the call to the point where its promise is settled or is known to stay pending. The step
  function of the last subsection has the event loop: calls that overlap, each suspended at
  its \<^verbatim>\<open>await\<close> and taken up again when its poll loop finds a reply.
\<close>

subsection \<open>JavaScript values\<close>

text \<open>
  The values that cross the IPC channel, and the ones the manager builds. Numbers play no
  role in this module beyond their \<^verbatim>\<open>typeof\<close>; they are kept as integers. An object is the
  list of its own properties; its prototype is not part of the value.
\<close>

datatype jsval =
    JUndefined
  | JNull
  | JBool bool
  | JNum int
  | JStr string
  | JArr "jsval list"
  | JObj "(string \<times> jsval) list"

text \<open>
  \<open>Error payload\<close> is the value of \<^verbatim>\<open>Error(payload)\<close>, kept with the argument it was built
  from; \<open>TypeError\<close> is what the engine throws on a property read of \<^verbatim>\<open>undefined\<close> or
  \<^verbatim>\<open>null\<close>, on a call of something that is not a function, and on a value that cannot be
  converted to a primitive.
\<close>

datatype js_error = TypeError | Error jsval

text \<open>
  \<^verbatim>\<open>Error(message)\<close> converts a message other than \<^verbatim>\<open>undefined\<close> to a string, and the
  conversion can throw. An object is converted by its \<^verbatim>\<open>toString\<close>, then by its
  \<^verbatim>\<open>valueOf\<close>: an own property \<^verbatim>\<open>toString\<close> of a value off the channel is never a function,
  and \<^verbatim>\<open>valueOf\<close> then gives no primitive, so the conversion throws exactly for the objects
  that have a property \<^verbatim>\<open>toString\<close> of their own. An array is converted by joining the
  conversions of its elements.
\<close>

fun ToString_throws :: "jsval \<Rightarrow> bool" where
  "ToString_throws (JObj fs) = (map_of fs ''toString'' \<noteq> None)"
| "ToString_throws (JArr xs) = list_ex ToString_throws xs"
| "ToString_throws v = False"

definition js_Error :: "jsval \<Rightarrow> js_error + js_error" where
  "js_Error message = (if ToString_throws message then Inl TypeError else Inr (Error message))"

fun js_typeof :: "jsval \<Rightarrow> string" where
  "js_typeof JUndefined = ''undefined''"
| "js_typeof JNull = ''object''"
| "js_typeof (JBool b) = ''boolean''"
| "js_typeof (JNum n) = ''number''"
| "js_typeof (JStr s) = ''string''"
| "js_typeof (JArr xs) = ''object''"
| "js_typeof (JObj fs) = ''object''"

text \<open>
  The property read \<^verbatim>\<open>v.k\<close>, for the keys this module reads (\<^verbatim>\<open>type\<close>, \<^verbatim>\<open>payload\<close>):
  neither is a property of a primitive wrapper or of an array, so the read gives
  \<^verbatim>\<open>undefined\<close> there.
\<close>

fun js_get :: "jsval \<Rightarrow> string \<Rightarrow> js_error + jsval" where
  "js_get JUndefined k = Inl TypeError"
| "js_get JNull k = Inl TypeError"
| "js_get (JObj fs) k = Inr (case map_of fs k of Some v \<Rightarrow> v | None \<Rightarrow> JUndefined)"
| "js_get v k = Inr JUndefined"

text \<open>
  \<^verbatim>\<open>String.prototype.indexOf\<close>: the first position at which the pattern occurs, or -1.
  The third argument is the position of the head of the string that is left.
\<close>

fun String_indexOf :: "string \<Rightarrow> string \<Rightarrow> nat \<Rightarrow> int" where
  "String_indexOf [] pat k = (if pat = [] then int k else - 1)"
| "String_indexOf (c # cs) pat k =
     (if prefix pat (c # cs) then int k else String_indexOf cs pat (Suc k))"

text \<open>
  \<^verbatim>\<open>Array.prototype.indexOf\<close>: the first position whose element is strictly equal to the
  value looked for, or -1. The value looked for is always a string here, and a string is
  strictly equal to the strings with the same characters only.
\<close>

fun Array_indexOf :: "jsval list \<Rightarrow> jsval \<Rightarrow> nat \<Rightarrow> int" where
  "Array_indexOf [] v k = - 1"
| "Array_indexOf (x # xs) v k = (if x = v then int k else Array_indexOf xs v (Suc k))"

text \<open>
  The call \<^verbatim>\<open>t.indexOf(s)\<close> for a string \<open>s\<close>. Strings and arrays have the method; on
  \<^verbatim>\<open>undefined\<close> and \<^verbatim>\<open>null\<close> the property read throws, and on a number, a boolean or an
  object off the channel \<^verbatim>\<open>indexOf\<close> is not a function.
\<close>

fun js_indexOf :: "jsval \<Rightarrow> string \<Rightarrow> js_error + int" where
  "js_indexOf (JStr s) pat = Inr (String_indexOf s pat 0)"
| "js_indexOf (JArr xs) pat = Inr (Array_indexOf xs (JStr pat) 0)"
| "js_indexOf v pat = Inl TypeError"

subsection \<open>The message queue of a forked worker\<close>

text \<open>
  The listener installed by \<^verbatim>\<open>fork\<close>:
  \<^verbatim>\<open>if (typeof message !== 'object') return; messageQueue.push(message);\<close>
\<close>

definition on_message :: "jsval list \<Rightarrow> jsval \<Rightarrow> jsval list" where
  "on_message messageQueue message =
     (if js_typeof message \<noteq> ''object'' then messageQueue else messageQueue @ [message])"

text \<open>
  One call of \<^verbatim>\<open>scanQueue\<close> either throws, or returns an index after having settled the
  promise (\<^verbatim>\<open>reject(Error(payload))\<close>, \<^verbatim>\<open>resolve(payload)\<close>), or returns -1 having settled
  nothing. In \<^verbatim>\<open>reject(Error(payload))\<close> the error is built first: when that throws, nothing
  is rejected.
\<close>

datatype settlement = Resolve jsval | Reject js_error

datatype scan = Thrown js_error | Returned int "settlement option"

function scanQueue_loop :: "string \<Rightarrow> jsval list \<Rightarrow> nat \<Rightarrow> scan" where
  "scanQueue_loop action_type messageQueue i =
     (if i < length messageQueue then
        (case js_get (messageQueue ! i) ''type'' of
           Inl e \<Rightarrow> Thrown e
         | Inr type \<Rightarrow>
             (case js_indexOf type action_type of
                Inl e \<Rightarrow> Thrown e
              | Inr k \<Rightarrow>
                  if k = 0 then
                    (case js_get (messageQueue ! i) ''payload'' of
                       Inl e \<Rightarrow> Thrown e
                     | Inr payload \<Rightarrow>
                         if type = JStr (action_type @ ''/error'')
                         then (case js_Error payload of
                                 Inl e \<Rightarrow> Thrown e
                               | Inr err \<Rightarrow> Returned (int i) (Some (Reject err)))
                         else if type = JStr (action_type @ ''/done'')
                         then Returned (int i) (Some (Resolve payload))
                         else scanQueue_loop action_type messageQueue (Suc i))
                  else scanQueue_loop action_type messageQueue (Suc i)))
      else Returned (- 1) None)"
  by pat_completeness auto
termination
  by (relation "measure (\<lambda>(t, q, i). length q - i)") auto

declare scanQueue_loop.simps [simp del]

definition scanQueue :: "string \<Rightarrow> jsval list \<Rightarrow> scan" where
  "scanQueue action_type messageQueue = scanQueue_loop action_type messageQueue 0"

text \<open>\<^verbatim>\<open>messageQueue.splice(index, 1)\<close> for an index inside the queue.\<close>

definition splice1 :: "'a list \<Rightarrow> nat \<Rightarrow> 'a list" where
  "splice1 xs index = take index xs @ drop (Suc index) xs"

text \<open>
  A promise as its caller sees it in the end: fulfilled, rejected, never settled, or never
  settled because a callback of the event loop threw (the exception is uncaught: it is
  raised inside a \<^verbatim>\<open>setImmediate\<close> callback, outside the promise executor).
\<close>

datatype 'a promise = Resolved 'a | Rejected js_error | Pending | Uncaught js_error

fun settle :: "settlement option \<Rightarrow> jsval promise" where
  "settle (Some (Resolve payload)) = Resolved payload"
| "settle (Some (Reject err)) = Rejected err"
| "settle None = Pending"

text \<open>
  One run of the callback \<^verbatim>\<open>consume\<close>: the new queue, and the state of the promise after
  it (\<open>None\<close>: nothing found, the callback has scheduled itself again).
\<close>

definition consume_once :: "string \<Rightarrow> jsval list \<Rightarrow> jsval list \<times> jsval promise option" where
  "consume_once action_type messageQueue =
     (case scanQueue action_type messageQueue of
        Thrown e \<Rightarrow> (messageQueue, Some (Uncaught e))
      | Returned index eff \<Rightarrow>
          if index < 0 then (messageQueue, None)
          else (splice1 messageQueue (nat index), Some (settle eff)))"

text \<open>
  The poll loop: \<^verbatim>\<open>consume\<close> runs once per turn of the event loop until it finds a reply.
  Between two runs the listener receives the next batch of messages of the worker.
\<close>

fun consume :: "string \<Rightarrow> jsval list \<Rightarrow> jsval list list \<Rightarrow> jsval list \<times> jsval promise" where
  "consume action_type messageQueue [] =
     (case consume_once action_type messageQueue of
        (q, Some r) \<Rightarrow> (q, r)
      | (q, None) \<Rightarrow> (q, Pending))"
| "consume action_type messageQueue (batch # arrivals) =
     (case consume_once action_type messageQueue of
        (q, Some r) \<Rightarrow> (q, r)
      | (q, None) \<Rightarrow> consume action_type (foldl on_message q batch) arrivals)"

text \<open>
  What \<^verbatim>\<open>fork\<close> returns: the child process (its number, and the messages sent to it with
  \<^verbatim>\<open>subprocess.send\<close>) and the queue its listener fills.
\<close>

record handle =
  pid :: nat
  sent :: "jsval list"
  messageQueue :: "jsval list"

definition send :: "handle \<Rightarrow> string \<times> jsval \<Rightarrow> jsval list list \<Rightarrow> handle \<times> jsval promise" where
  "send h action arrivals =
     (let h1 = h\<lparr>sent := sent h @ [JObj [(''type'', JStr (fst action)), (''payload'', snd action)]]\<rparr>;
          (q, r) = consume (fst action) (messageQueue h1) arrivals
      in (h1\<lparr>messageQueue := q\<rparr>, r))"

definition invoke :: "handle \<Rightarrow> string \<Rightarrow> jsval \<Rightarrow> jsval list list \<Rightarrow> handle \<times> jsval promise" where
  "invoke h method args arrivals = send h (method, args) arrivals"


text \<open>
  Several calls can be outstanding on one handle. Their \<^verbatim>\<open>consume\<close> callbacks run one after
  the other in a turn of the event loop, each on the queue the one before it left; an
  uncaught exception ends the turn.
\<close>

fun turn :: "string list \<Rightarrow> jsval list \<Rightarrow> jsval list \<times> (string \<times> jsval promise option) list" where
  "turn [] q = (q, [])"
| "turn (T # Ts) q =
     (case consume_once T q of
        (q', Some (Uncaught e)) \<Rightarrow> (q', [(T, Some (Uncaught e))])
      | (q', r) \<Rightarrow> (case turn Ts q' of (q'', rs) \<Rightarrow> (q'', (T, r) # rs)))"

fun claimed :: "string \<times> jsval promise option \<Rightarrow> bool" where
  "claimed (T, Some (Resolved p)) = True"
| "claimed (T, Some (Rejected e)) = True"
| "claimed (T, r) = False"

subsection \<open>The matching rule in the words of the specification\<close>

definition payload_of :: "jsval \<Rightarrow> jsval" where
  "payload_of m = (case js_get m ''payload'' of Inr p \<Rightarrow> p | Inl e \<Rightarrow> JUndefined)"

text \<open>
  A pending message matches a request of type \<open>T\<close> iff its \<^verbatim>\<open>type\<close> is \<open>T + "/done"\<close>
  (the call resolves with the payload) or \<open>T + "/error"\<close> (the call fails with the payload
  as error detail).
\<close>

definition matching :: "string \<Rightarrow> jsval \<Rightarrow> settlement option" where
  "matching T m =
     (if js_get m ''type'' = Inr (JStr (T @ ''/error'')) then Some (Reject (Error (payload_of m)))
      else if js_get m ''type'' = Inr (JStr (T @ ''/done'')) then Some (Resolve (payload_of m))
      else None)"

text \<open>A well-formed message: an object whose \<^verbatim>\<open>type\<close> is a string.\<close>

fun well_formed :: "jsval \<Rightarrow> bool" where
  "well_formed (JObj fs) = (case map_of fs ''type'' of Some (JStr s) \<Rightarrow> True | _ \<Rightarrow> False)"
| "well_formed v = False"

text \<open>
  A message a scan for \<open>T\<close> can handle: it is well-formed and, when it is the error reply to
  \<open>T\<close>, an error can be built from its payload.
\<close>

definition sound_message :: "string \<Rightarrow> jsval \<Rightarrow> bool" where
  "sound_message T m \<longleftrightarrow>
     well_formed m \<and>
     (js_get m ''type'' \<noteq> Inr (JStr (T @ ''/error'')) \<or> \<not> ToString_throws (payload_of m))"

text \<open>
  The reply that a request of type \<open>T\<close> gets from a sequence of messages by the matching
  rule: what the first message that matches settles, as long as every message up to it is
  sound. There is none when no message matches, and none is promised when an unsound message
  comes first.
\<close>

fun first_reply :: "string \<Rightarrow> jsval list \<Rightarrow> settlement option" where
  "first_reply T [] = None"
| "first_reply T (m # ms) =
     (if sound_message T m
      then (case matching T m of Some s \<Rightarrow> Some s | None \<Rightarrow> first_reply T ms)
      else None)"

text \<open>The messages a call can see: those in the queue, and those that arrive while it polls.\<close>

definition received :: "handle \<Rightarrow> jsval list list \<Rightarrow> jsval set" where
  "received h arrivals = set (messageQueue h) \<union> set (concat arrivals)"

text \<open>
  The same messages in the order in which the scans of the call meet them: the queue, then
  what the listener lets through of the arrivals.
\<close>

definition seen :: "handle \<Rightarrow> jsval list list \<Rightarrow> jsval list" where
  "seen h arrivals = messageQueue h @ filter (\<lambda>m. js_typeof m = ''object'') (concat arrivals)"

subsection \<open>The registry\<close>

text \<open>
  \<^verbatim>\<open>subprocesses\<close> is a \<^verbatim>\<open>Map\<close>: its entries are kept in insertion order, \<^verbatim>\<open>set\<close> on a key
  that is present keeps the key's place, \<^verbatim>\<open>delete\<close> removes the entry. \<^verbatim>\<open>get\<close> gives
  \<^verbatim>\<open>undefined\<close> (\<open>None\<close>) for a key that is not there; a value is a handle or \<^verbatim>\<open>null\<close>.
\<close>

definition Map_get :: "('k \<times> 'v) list \<Rightarrow> 'k \<Rightarrow> 'v option" where
  "Map_get entries k = map_of entries k"

fun Map_set :: "('k \<times> 'v) list \<Rightarrow> 'k \<Rightarrow> 'v \<Rightarrow> ('k \<times> 'v) list" where
  "Map_set [] k v = [(k, v)]"
| "Map_set ((k', v') # entries) k v =
     (if k' = k then (k, v) # entries else (k', v') # Map_set entries k v)"

definition Map_delete :: "('k \<times> 'v) list \<Rightarrow> 'k \<Rightarrow> ('k \<times> 'v) list" where
  "Map_delete entries k = filter (\<lambda>(k', v). k' \<noteq> k) entries"

text \<open>
  The state of the module: the registry, the number of children forked so far (the next
  child gets this number) and the children on which \<^verbatim>\<open>kill()\<close> was called. A handle is
  referenced by one entry only, so the entry holds the handle's state itself.
\<close>

record manager =
  subprocesses :: "(string \<times> handle option) list"
  forked :: nat
  killed :: "nat list"

definition init :: manager where
  "init = \<lparr>subprocesses = [], forked = 0, killed = []\<rparr>"

definition fork :: "manager \<Rightarrow> manager \<times> handle" where
  "fork m = (m\<lparr>forked := Suc (forked m)\<rparr>, \<lparr>pid = forked m, sent = [], messageQueue = []\<rparr>)"

text \<open>
  \<^verbatim>\<open>await sub.invoke(method, args)\<close> on the handle registered under \<open>sid\<close>: what the call does
  to the handle (the message sent, the reply taken from the queue) is seen through the entry.
\<close>

definition await_invoke ::
    "manager \<Rightarrow> string \<Rightarrow> handle \<Rightarrow> string \<Rightarrow> jsval \<Rightarrow> jsval list list \<Rightarrow> manager \<times> jsval promise" where
  "await_invoke m sid sub method args arrivals =
     (case invoke sub method args arrivals of
        (sub', r) \<Rightarrow> (m\<lparr>subprocesses := Map_set (subprocesses m) sid (Some sub')\<rparr>, r))"

definition start :: "manager \<Rightarrow> string \<Rightarrow> jsval \<Rightarrow> jsval list list \<Rightarrow> manager \<times> jsval promise" where
  "start m sid config arrivals =
     (let (m1, sub) =
            (case Map_get (subprocesses m) sid of
               Some (Some sub) \<Rightarrow> (m, sub)
             | _ \<Rightarrow> (case fork m of
                       (m', sub) \<Rightarrow> (m'\<lparr>subprocesses := Map_set (subprocesses m') sid (Some sub)\<rparr>, sub)))
      in case await_invoke m1 sid sub ''start'' config arrivals of
           (m2, Resolved payload) \<Rightarrow> (m2, Resolved JUndefined)
         | (m2, Rejected err) \<Rightarrow>
             (m2\<lparr>subprocesses := Map_delete (subprocesses m2) sid\<rparr>, Rejected err)
         | (m2, Pending) \<Rightarrow> (m2, Pending)
         | (m2, Uncaught e) \<Rightarrow> (m2, Uncaught e))"

definition not_found :: "string \<Rightarrow> js_error" where
  "not_found sid = Error (JStr (''service('' @ sid @ '') is not found''))"

definition stop :: "manager \<Rightarrow> string \<Rightarrow> jsval list list \<Rightarrow> manager \<times> jsval promise" where
  "stop m sid arrivals =
     (case Map_get (subprocesses m) sid of
        Some (Some sub) \<Rightarrow>
          (case await_invoke m sid sub ''stop'' JUndefined arrivals of
             (m1, Resolved payload) \<Rightarrow>
               (m1\<lparr>killed := killed m1 @ [pid sub],
                   subprocesses := Map_set (subprocesses m1) sid None\<rparr>, Resolved JUndefined)
           | (m1, r) \<Rightarrow> (m1, r))
      | _ \<Rightarrow> (m, Rejected (not_found sid)))"

text \<open>
  The three status constants are imported from \<^verbatim>\<open>../constants\<close>; their values play no
  role in this module, so they are parameters of the model.
\<close>

record constants =
  SERVICE_STATUS_INIT :: jsval
  SERVICE_STATUS_RUNNING :: jsval
  SERVICE_STATUS_STOPPED :: jsval

text \<open>
  The object literal \<^verbatim>\<open>{ status: RUNNING, ...reply }\<close>: the own enumerable properties of the
  reply are defined on the new object one after the other, a later definition of a key
  replacing the value of an earlier one. A string or an array has its indices as
  properties; the other primitives have none.
\<close>

fun digit :: "nat \<Rightarrow> char" where
  "digit n = ''0123456789'' ! (n mod 10)"

function string_of_nat :: "nat \<Rightarrow> string" where
  "string_of_nat n = (if n < 10 then [digit n] else string_of_nat (n div 10) @ [digit n])"
  by pat_completeness auto
termination
  by (relation "measure id") auto

declare string_of_nat.simps [simp del]

fun own_props :: "jsval \<Rightarrow> (string \<times> jsval) list" where
  "own_props (JObj fs) = fs"
| "own_props (JArr xs) = zip (map string_of_nat [0..<length xs]) xs"
| "own_props (JStr s) = zip (map string_of_nat [0..<length s]) (map (\<lambda>c. JStr [c]) s)"
| "own_props v = []"

definition spread :: "(string \<times> jsval) list \<Rightarrow> jsval \<Rightarrow> (string \<times> jsval) list" where
  "spread props v = foldl (\<lambda>obj (k, x). Map_set obj k x) props (own_props v)"

definition getServiceInfo ::
    "constants \<Rightarrow> manager \<Rightarrow> string \<Rightarrow> jsval list list \<Rightarrow> manager \<times> jsval promise" where
  "getServiceInfo c m sid arrivals =
     (case Map_get (subprocesses m) sid of
        Some (Some sub) \<Rightarrow>
          (case await_invoke m sid sub ''getStatus'' JUndefined arrivals of
             (m1, Resolved reply) \<Rightarrow>
               (m1, Resolved (JObj (spread [(''status'', SERVICE_STATUS_RUNNING c)] reply)))
           | (m1, r) \<Rightarrow> (m1, r))
      | None \<Rightarrow> (m, Resolved (JObj [(''status'', SERVICE_STATUS_INIT c)]))
      | Some None \<Rightarrow> (m, Resolved (JObj [(''status'', SERVICE_STATUS_STOPPED c)])))"

text \<open>
  The assignment \<^verbatim>\<open>services[id] = info\<close> on the plain object \<^verbatim>\<open>services\<close>, whose properties
  are listed in the order in which the engine enumerates them: the names that are array
  indices (the decimal numerals below \<open>2\<^sup>3\<^sup>2 - 1\<close>) first, in ascending order, then the other
  names in the order of their creation. Assigning to the name \<^verbatim>\<open>__proto__\<close> calls the setter
  inherited from \<^verbatim>\<open>Object.prototype\<close>: it sets the prototype and creates no property.
\<close>

definition digit_value :: "char \<Rightarrow> nat option" where
  "digit_value c =
     (if c \<in> set ''0123456789'' then Some (length (takeWhile (\<lambda>d. d \<noteq> c) ''0123456789''))
      else None)"

fun nat_of_digits :: "string \<Rightarrow> nat \<Rightarrow> nat option" where
  "nat_of_digits [] acc = Some acc"
| "nat_of_digits (c # cs) acc =
     (case digit_value c of None \<Rightarrow> None | Some d \<Rightarrow> nat_of_digits cs (10 * acc + d))"

definition array_index :: "string \<Rightarrow> nat option" where
  "array_index k =
     (case nat_of_digits k 0 of
        None \<Rightarrow> None
      | Some n \<Rightarrow> if k \<noteq> [] \<and> string_of_nat n = k \<and> n < 4294967295 then Some n else None)"

fun insert_index :: "(string \<times> jsval) list \<Rightarrow> nat \<Rightarrow> string \<Rightarrow> jsval \<Rightarrow> (string \<times> jsval) list" where
  "insert_index [] n k v = [(k, v)]"
| "insert_index ((k', v') # props) n k v =
     (case array_index k' of
        Some n' \<Rightarrow>
          if n' < n then (k', v') # insert_index props n k v else (k, v) # (k', v') # props
      | None \<Rightarrow> (k, v) # (k', v') # props)"

definition js_set :: "(string \<times> jsval) list \<Rightarrow> string \<Rightarrow> jsval \<Rightarrow> (string \<times> jsval) list" where
  "js_set props k v =
     (if k = ''__proto__'' then props
      else if k \<in> set (map fst props) then Map_set props k v
      else (case array_index k of
              Some n \<Rightarrow> insert_index props n k v
            | None \<Rightarrow> props @ [(k, v)]))"

text \<open>
  \<^verbatim>\<open>getServices\<close> walks the entries of the registry in their order and awaits one
  \<^verbatim>\<open>getServiceInfo\<close> after the other; \<open>arrivals_of sid\<close> is what the worker of \<open>sid\<close> emits
  while its call is awaited. A call that does not resolve ends the walk.
\<close>

fun getServices_loop ::
    "constants \<Rightarrow> manager \<Rightarrow> string list \<Rightarrow> (string \<Rightarrow> jsval list list) \<Rightarrow> (string \<times> jsval) list
      \<Rightarrow> manager \<times> jsval promise" where
  "getServices_loop c m [] arrivals_of services = (m, Resolved (JObj services))"
| "getServices_loop c m (sid # ids) arrivals_of services =
     (case getServiceInfo c m sid (arrivals_of sid) of
        (m1, Resolved info) \<Rightarrow> getServices_loop c m1 ids arrivals_of (js_set services sid info)
      | (m1, r) \<Rightarrow> (m1, r))"

definition getServices :: "constants \<Rightarrow> manager \<Rightarrow> (string \<Rightarrow> jsval list list) \<Rightarrow> manager \<times> jsval promise" where
  "getServices c m arrivals_of = getServices_loop c m (map fst (subprocesses m)) arrivals_of []"

definition getMetrics :: "manager \<Rightarrow> string \<Rightarrow> jsval \<Rightarrow> jsval list list \<Rightarrow> manager \<times> jsval promise" where
  "getMetrics m sid type arrivals =
     (case Map_get (subprocesses m) sid of
        Some (Some sub) \<Rightarrow>
          (if type = JStr ''cpu'' then await_invoke m sid sub ''getCPUMetrics'' JUndefined arrivals
           else if type = JStr ''memory'' then await_invoke m sid sub ''getMemoryMetrics'' JUndefined arrivals
           else if type = JStr ''speed'' then await_invoke m sid sub ''getSpeedMetrics'' JUndefined arrivals
           else if type = JStr ''connections''
             then await_invoke m sid sub ''getConnectionsMetrics'' JUndefined arrivals
           else if type = JStr ''traffic'' then await_invoke m sid sub ''getTrafficMetrics'' JUndefined arrivals
           else (m, Resolved JUndefined))
      | _ \<Rightarrow> (m, Resolved (JArr [])))"

subsection \<open>The state of an entry\<close>

datatype entry = Absent | Tombstoned | Active

definition entry_state :: "manager \<Rightarrow> string \<Rightarrow> entry" where
  "entry_state m sid =
     (case Map_get (subprocesses m) sid of
        None \<Rightarrow> Absent
      | Some None \<Rightarrow> Tombstoned
      | Some (Some sub) \<Rightarrow> Active)"

subsection \<open>Calls that overlap\<close>

text \<open>
  The calls of the registry are \<^verbatim>\<open>async\<close> functions: a call runs up to its \<^verbatim>\<open>await\<close>, where
  \<^verbatim>\<open>send\<close> has posted the message and scheduled \<^verbatim>\<open>consume\<close>, and the rest of the function
  runs when a later run of \<^verbatim>\<open>consume\<close> has settled the promise. Between the two, other calls
  are made, messages arrive and other callbacks run. The world is the registry, whose
  handles are references to the children (their numbers), the children with their queues,
  and the calls that are outstanding, each with the child it polls, the type it waits for
  and what is left of its function.

  What is left of \<^verbatim>\<open>start\<close> is its \<^verbatim>\<open>catch\<close> block; of \<^verbatim>\<open>stop\<close> the two statements after the
  \<^verbatim>\<open>await\<close>, with the handle the call read from the registry when it was made; of
  \<^verbatim>\<open>getServiceInfo\<close> and \<^verbatim>\<open>getMetrics\<close> the return of a value. \<^verbatim>\<open>getServices\<close> awaits a call
  of \<^verbatim>\<open>getServiceInfo\<close> for one id after the other and does nothing else to the world: in a
  sequence of events it is the calls of \<^verbatim>\<open>getServiceInfo\<close> that it makes.
\<close>

datatype continuation = After_start string | After_stop string | After_read

datatype call = Start string jsval | Stop string | GetServiceInfo string | GetMetrics string jsval

text \<open>
  An event is a call from the dispatch layer, a message of a child reaching its listener,
  or the run of the \<^verbatim>\<open>consume\<close> callback of one of the outstanding calls. The callbacks may
  run in any order.
\<close>

datatype event = Call call | Message nat jsval | Immediate nat

record world =
  registry :: "(string \<times> nat option) list"
  children :: "nat \<Rightarrow> handle"
  spawned :: nat
  terminated :: "nat list"
  outstanding :: "(nat \<times> string \<times> continuation) list"
  crashed :: bool

definition init_world :: world where
  "init_world =
     \<lparr>registry = [], children = (\<lambda>p. \<lparr>pid = p, sent = [], messageQueue = []\<rparr>), spawned = 0,
      terminated = [], outstanding = [], crashed = False\<rparr>"

text \<open>\<^verbatim>\<open>sub.invoke(method, args)\<close> up to the \<^verbatim>\<open>await\<close>: the message is sent, the poll is scheduled.\<close>

definition invoke_on :: "world \<Rightarrow> nat \<Rightarrow> string \<Rightarrow> jsval \<Rightarrow> continuation \<Rightarrow> world" where
  "invoke_on w p method args k =
     w\<lparr>children := (children w)
          (p := (children w p)\<lparr>sent := sent (children w p) @
                   [JObj [(''type'', JStr method), (''payload'', args)]]\<rparr>),
       outstanding := outstanding w @ [(p, method, k)]\<rparr>"

fun make_call :: "world \<Rightarrow> call \<Rightarrow> world" where
  "make_call w (Start sid config) =
     (case Map_get (registry w) sid of
        Some (Some p) \<Rightarrow> invoke_on w p ''start'' config (After_start sid)
      | _ \<Rightarrow>
          invoke_on
            (w\<lparr>spawned := Suc (spawned w),
               children := (children w)(spawned w := \<lparr>pid = spawned w, sent = [], messageQueue = []\<rparr>),
               registry := Map_set (registry w) sid (Some (spawned w))\<rparr>)
            (spawned w) ''start'' config (After_start sid))"
| "make_call w (Stop sid) =
     (case Map_get (registry w) sid of
        Some (Some p) \<Rightarrow> invoke_on w p ''stop'' JUndefined (After_stop sid)
      | _ \<Rightarrow> w)"
| "make_call w (GetServiceInfo sid) =
     (case Map_get (registry w) sid of
        Some (Some p) \<Rightarrow> invoke_on w p ''getStatus'' JUndefined After_read
      | _ \<Rightarrow> w)"
| "make_call w (GetMetrics sid type) =
     (case Map_get (registry w) sid of
        Some (Some p) \<Rightarrow>
          (if type = JStr ''cpu'' then invoke_on w p ''getCPUMetrics'' JUndefined After_read
           else if type = JStr ''memory'' then invoke_on w p ''getMemoryMetrics'' JUndefined After_read
           else if type = JStr ''speed'' then invoke_on w p ''getSpeedMetrics'' JUndefined After_read
           else if type = JStr ''connections'' then invoke_on w p ''getConnectionsMetrics'' JUndefined After_read
           else if type = JStr ''traffic'' then invoke_on w p ''getTrafficMetrics'' JUndefined After_read
           else w)
      | _ \<Rightarrow> w)"

text \<open>
  The rest of the function of a call whose promise was settled, on the child \<open>p\<close> it had
  invoked.
\<close>

fun resume :: "world \<Rightarrow> nat \<Rightarrow> continuation \<Rightarrow> jsval promise \<Rightarrow> world" where
  "resume w p (After_start sid) (Rejected err) = w\<lparr>registry := Map_delete (registry w) sid\<rparr>"
| "resume w p (After_stop sid) (Resolved payload) =
     w\<lparr>terminated := terminated w @ [p], registry := Map_set (registry w) sid None\<rparr>"
| "resume w p k r = w"

text \<open>
  One run of the callback \<^verbatim>\<open>consume\<close> of the \<open>n\<close>-th outstanding call. When the scan finds
  nothing the callback is scheduled again and the call stays outstanding. When it settles
  the promise, the message is taken from the queue and the rest of the function runs before
  any other event. An exception in the scan is caught by nobody and ends the process.
\<close>

definition run_consume :: "world \<Rightarrow> nat \<Rightarrow> world" where
  "run_consume w n =
     (if n < length (outstanding w) then
        (case outstanding w ! n of
           (p, action_type, k) \<Rightarrow>
             (case consume_once action_type (messageQueue (children w p)) of
                (q, None) \<Rightarrow> w
              | (q, Some (Uncaught e)) \<Rightarrow> w\<lparr>crashed := True\<rparr>
              | (q, Some r) \<Rightarrow>
                  resume
                    (w\<lparr>children := (children w)(p := (children w p)\<lparr>messageQueue := q\<rparr>),
                       outstanding := take n (outstanding w) @ drop (Suc n) (outstanding w)\<rparr>)
                    p k r))
      else w)"

fun step :: "world \<Rightarrow> event \<Rightarrow> world" where
  "step w (Call c) = (if crashed w then w else make_call w c)"
| "step w (Message p message) =
     (if crashed w then w
      else w\<lparr>children := (children w)
                (p := (children w p)\<lparr>messageQueue := on_message (messageQueue (children w p)) message\<rparr>)\<rparr>)"
| "step w (Immediate n) = (if crashed w then w else run_consume w n)"

fun trace :: "world \<Rightarrow> event list \<Rightarrow> world" where
  "trace w [] = w"
| "trace w (ev # evs) = trace (step w ev) evs"

definition entry_of :: "world \<Rightarrow> string \<Rightarrow> entry" where
  "entry_of w sid =
     (case Map_get (registry w) sid of
        None \<Rightarrow> Absent
      | Some None \<Rightarrow> Tombstoned
      | Some (Some p) \<Rightarrow> Active)"

subsection \<open>Values for the examples\<close>

text \<open>A reply as a worker emits it, and a handle fresh from \<^verbatim>\<open>fork\<close>.\<close>

definition reply :: "string \<Rightarrow> jsval \<Rightarrow> jsval" where
  "reply t p = JObj [(''type'', JStr t), (''payload'', p)]"

definition h0 :: handle where
  "h0 = \<lparr>pid = 0, sent = [], messageQueue = []\<rparr>"

text \<open>Example values of the three status constants, and workers that stay silent.\<close>

definition c0 :: constants where
  "c0 = \<lparr>SERVICE_STATUS_INIT = JStr ''INIT'', SERVICE_STATUS_RUNNING = JStr ''RUNNING'',
          SERVICE_STATUS_STOPPED = JStr ''STOPPED''\<rparr>"

definition no_arrivals :: "string \<Rightarrow> jsval list list" where
  "no_arrivals sid = []"

text \<open>Workers that all answer \<^verbatim>\<open>getStatus\<close> with the same reply.\<close>

definition answering :: "jsval \<Rightarrow> string \<Rightarrow> jsval list list" where
  "answering p sid = [[reply ''getStatus/done'' p]]"

section \<open>Properties\<close>

subsection \<open>Scanning the queue\<close>

lemma String_indexOf_range: "String_indexOf s pat k = - 1 \<or> int k \<le> String_indexOf s pat k"
  by (induction s pat k rule: String_indexOf.induct) auto

lemma String_indexOf_here: "String_indexOf s pat k = int k \<longleftrightarrow> prefix pat s"
proof (cases s)
  case Nil
  then show ?thesis by auto
next
  case (Cons c cs)
  have "String_indexOf cs pat (Suc k) \<noteq> int k"
    using String_indexOf_range [of cs pat "Suc k"] by auto
  with Cons show ?thesis by auto
qed

lemma js_indexOf_JStr: "js_indexOf (JStr s) T = Inr k \<Longrightarrow> k = 0 \<longleftrightarrow> prefix T s"
  using String_indexOf_here [of s T 0] by auto

lemma matching_prefix:
  "matching T m \<noteq> None \<Longrightarrow> \<exists>t. js_get m ''type'' = Inr (JStr t) \<and> js_indexOf (JStr t) T = Inr 0"
  using String_indexOf_here [of "T @ ''/error''" T 0] String_indexOf_here [of "T @ ''/done''" T 0]
  by (auto simp: matching_def split: if_splits)

lemma scan_step_miss:
  assumes "i < length q" and "scanQueue_loop T q i = Returned r eff" and "matching T (q ! i) = None"
  shows "scanQueue_loop T q (Suc i) = Returned r eff"
  using assms
  by (subst (asm) scanQueue_loop.simps)
    (auto simp: matching_def payload_of_def js_Error_def split: sum.splits if_splits)

lemma scan_step_hit:
  assumes "i < length q" and "scanQueue_loop T q i = Returned r eff" and "matching T (q ! i) = Some s"
  shows "r = int i \<and> eff = Some s"
proof -
  from assms(3) obtain t where t: "js_get (q ! i) ''type'' = Inr (JStr t)" "js_indexOf (JStr t) T = Inr 0"
    using matching_prefix [of T "q ! i"] by auto
  from assms t show ?thesis
    by (subst (asm) scanQueue_loop.simps)
      (auto simp: matching_def payload_of_def js_Error_def split: sum.splits if_splits)
qed

lemma scan_end: "\<not> i < length q \<Longrightarrow> scanQueue_loop T q i = Returned (- 1) None"
  by (subst scanQueue_loop.simps) simp

lemma scanQueue_loop_sound:
  "scanQueue_loop T q i = Returned r eff \<Longrightarrow>
     (r = - 1 \<and> eff = None \<and> (\<forall>k. i \<le> k \<and> k < length q \<longrightarrow> matching T (q ! k) = None)) \<or>
     (\<exists>j. r = int j \<and> i \<le> j \<and> j < length q \<and> eff = matching T (q ! j) \<and> eff \<noteq> None \<and>
          (\<forall>k. i \<le> k \<and> k < j \<longrightarrow> matching T (q ! k) = None))"
proof (induction "length q - i" arbitrary: i)
  case 0
  then have "\<not> i < length q" by simp
  with "0.prems" show ?case by (auto simp: scan_end)
next
  case (Suc n)
  then have lt: "i < length q" by simp
  show ?case
  proof (cases "matching T (q ! i)")
    case (Some s)
    with lt Suc.prems have "r = int i \<and> eff = Some s" by (rule scan_step_hit)
    with lt Some show ?thesis by auto
  next
    case None
    with lt Suc.prems have next_scan: "scanQueue_loop T q (Suc i) = Returned r eff"
      by (rule scan_step_miss)
    from Suc.hyps(2) have "n = length q - Suc i" by simp
    from Suc.hyps(1) [OF this next_scan] show ?thesis
    proof
      assume a: "r = - 1 \<and> eff = None \<and> (\<forall>k. Suc i \<le> k \<and> k < length q \<longrightarrow> matching T (q ! k) = None)"
      have "\<forall>k. i \<le> k \<and> k < length q \<longrightarrow> matching T (q ! k) = None"
      proof (intro allI impI)
        fix k assume "i \<le> k \<and> k < length q"
        then consider "k = i" | "Suc i \<le> k \<and> k < length q" by linarith
        then show "matching T (q ! k) = None" using None a by cases auto
      qed
      with a show ?thesis by simp
    next
      assume "\<exists>j. r = int j \<and> Suc i \<le> j \<and> j < length q \<and> eff = matching T (q ! j) \<and> eff \<noteq> None \<and>
          (\<forall>k. Suc i \<le> k \<and> k < j \<longrightarrow> matching T (q ! k) = None)"
      then obtain j where j: "r = int j" "Suc i \<le> j" "j < length q" "eff = matching T (q ! j)" "eff \<noteq> None"
        "\<forall>k. Suc i \<le> k \<and> k < j \<longrightarrow> matching T (q ! k) = None" by blast
      have "\<forall>k. i \<le> k \<and> k < j \<longrightarrow> matching T (q ! k) = None"
      proof (intro allI impI)
        fix k assume "i \<le> k \<and> k < j"
        then consider "k = i" | "Suc i \<le> k \<and> k < j" by linarith
        then show "matching T (q ! k) = None" using None j(6) by cases auto
      qed
      with j show ?thesis by auto
    qed
  qed
qed


lemma well_formed_type: "well_formed m \<Longrightarrow> \<exists>fs s. m = JObj fs \<and> map_of fs ''type'' = Some (JStr s)"
  by (cases m) (auto split: option.splits jsval.splits)

lemma scan_pass:
  assumes "i < length q" and "sound_message T (q ! i)" and "matching T (q ! i) = None"
  shows "scanQueue_loop T q i = scanQueue_loop T q (Suc i)"
proof -
  from assms(2) have "well_formed (q ! i)" by (simp add: sound_message_def)
  then obtain fs s where m: "q ! i = JObj fs" "map_of fs ''type'' = Some (JStr s)"
    using well_formed_type by blast
  from assms(3) m have "s \<noteq> T @ ''/error''" "s \<noteq> T @ ''/done''"
    by (auto simp: matching_def split: if_splits)
  with assms(1) m show ?thesis
    by (intro trans [OF scanQueue_loop.simps]) simp
qed

lemma scan_claim:
  assumes "i < length q" and "sound_message T (q ! i)" and "matching T (q ! i) = Some s"
  shows "scanQueue_loop T q i = Returned (int i) (Some s)"
proof -
  from assms(2) have "well_formed (q ! i)" by (simp add: sound_message_def)
  then obtain fs t where m: "q ! i = JObj fs" "map_of fs ''type'' = Some (JStr t)"
    using well_formed_type by blast
  from assms(3) have "js_indexOf (JStr t) T = Inr 0"
    using matching_prefix [of T "q ! i"] m by auto
  then have k: "String_indexOf t T 0 = 0" by simp
  from assms(3) m consider
      (err) "t = T @ ''/error''" "s = Reject (Error (payload_of (q ! i)))"
    | (ok) "t \<noteq> T @ ''/error''" "t = T @ ''/done''" "s = Resolve (payload_of (q ! i))"
    by (auto simp: matching_def split: if_splits)
  then show ?thesis
  proof cases
    case err
    with assms(2) m have "\<not> ToString_throws (payload_of (q ! i))" by (simp add: sound_message_def)
    with err assms(1) m k show ?thesis
      by (intro trans [OF scanQueue_loop.simps]) (simp add: payload_of_def js_Error_def)
  next
    case ok
    with assms(1) m k show ?thesis
      by (intro trans [OF scanQueue_loop.simps]) (simp add: payload_of_def)
  qed
qed

lemma scanQueue_loop_total:
  "\<forall>m \<in> set q. sound_message T m \<Longrightarrow> \<exists>r eff. scanQueue_loop T q i = Returned r eff"
proof (induction "length q - i" arbitrary: i)
  case 0
  then show ?case by (simp add: scan_end)
next
  case (Suc n)
  then have lt: "i < length q" by simp
  with Suc.prems have s: "sound_message T (q ! i)" by simp
  from Suc.hyps(2) have "n = length q - Suc i" by simp
  from Suc.hyps(1) [OF this Suc.prems] obtain r eff where nxt: "scanQueue_loop T q (Suc i) = Returned r eff"
    by blast
  show ?case
  proof (cases "matching T (q ! i)")
    case None
    with lt s nxt show ?thesis by (simp add: scan_pass)
  next
    case (Some st)
    with lt s show ?thesis by (simp add: scan_claim)
  qed
qed

lemma scan_prefix:
  assumes "\<forall>x \<in> set pre. sound_message T x \<and> matching T x = None"
  shows "i \<le> length pre \<Longrightarrow>
    scanQueue_loop T (pre @ rest) i = scanQueue_loop T (pre @ rest) (length pre)"
proof (induction "length pre - i" arbitrary: i)
  case 0
  then show ?case by simp
next
  case (Suc n)
  then have lt: "i < length pre" by simp
  then have "pre ! i \<in> set pre" by (rule nth_mem)
  with assms have "sound_message T (pre ! i)" "matching T (pre ! i) = None" by auto
  with lt have "sound_message T ((pre @ rest) ! i)" "matching T ((pre @ rest) ! i) = None"
    by (simp_all add: nth_append)
  moreover from lt have "i < length (pre @ rest)" by simp
  ultimately have "scanQueue_loop T (pre @ rest) i = scanQueue_loop T (pre @ rest) (Suc i)"
    by (intro scan_pass)
  moreover from Suc.hyps(2) lt have "n = length pre - Suc i" "Suc i \<le> length pre" by simp_all
  then have "scanQueue_loop T (pre @ rest) (Suc i) = scanQueue_loop T (pre @ rest) (length pre)"
    by (rule Suc.hyps(1))
  ultimately show ?case by simp
qed

lemma matching_Resolve:
  "matching T m = Some (Resolve p) \<longleftrightarrow> js_get m ''type'' = Inr (JStr (T @ ''/done'')) \<and> p = payload_of m"
  by (auto simp: matching_def)

lemma matching_Reject:
  "matching T m = Some (Reject e) \<longleftrightarrow> js_get m ''type'' = Inr (JStr (T @ ''/error'')) \<and> e = Error (payload_of m)"
  by (auto simp: matching_def)

lemma matching_None:
  "matching T m = None \<longleftrightarrow>
     js_get m ''type'' \<noteq> Inr (JStr (T @ ''/done'')) \<and> js_get m ''type'' \<noteq> Inr (JStr (T @ ''/error''))"
  by (auto simp: matching_def)

lemma set_splice1: "set (splice1 xs i) \<subseteq> set xs"
  unfolding splice1_def using set_take_subset [of i xs] set_drop_subset [of "Suc i" xs] by auto

lemma length_splice1: "i < length xs \<Longrightarrow> Suc (length (splice1 xs i)) = length xs"
  by (auto simp: splice1_def)

lemma mset_splice1: "i < length xs \<Longrightarrow> add_mset (xs ! i) (mset (splice1 xs i)) = mset xs"
proof -
  assume "i < length xs"
  then have "xs = take i xs @ (xs ! i) # drop (Suc i) xs" by (simp add: id_take_nth_drop)
  then have "mset xs = mset (take i xs @ (xs ! i) # drop (Suc i) xs)" by simp
  then show ?thesis by (simp add: splice1_def)
qed

lemma consume_once_cases:
  assumes "consume_once T q = (q', res)"
  shows "(res = None \<and> q' = q \<and> (\<forall>m \<in> set q. matching T m = None)) \<or>
         (\<exists>e. res = Some (Uncaught e) \<and> q' = q) \<or>
         (\<exists>i s. i < length q \<and> matching T (q ! i) = Some s \<and> (\<forall>k < i. matching T (q ! k) = None) \<and>
                res = Some (settle (Some s)) \<and> q' = splice1 q i)"
proof (cases "scanQueue T q")
  case (Thrown e)
  with assms show ?thesis by (auto simp: consume_once_def)
next
  case (Returned r eff)
  then have "scanQueue_loop T q 0 = Returned r eff" by (simp add: scanQueue_def)
  from scanQueue_loop_sound [OF this] show ?thesis
  proof
    assume a: "r = - 1 \<and> eff = None \<and> (\<forall>k. 0 \<le> k \<and> k < length q \<longrightarrow> matching T (q ! k) = None)"
    then have "\<forall>m \<in> set q. matching T m = None" by (auto simp: in_set_conv_nth)
    with a assms Returned show ?thesis by (auto simp: consume_once_def)
  next
    assume "\<exists>j. r = int j \<and> 0 \<le> j \<and> j < length q \<and> eff = matching T (q ! j) \<and> eff \<noteq> None \<and>
          (\<forall>k. 0 \<le> k \<and> k < j \<longrightarrow> matching T (q ! k) = None)"
    then obtain j s where j: "r = int j" "j < length q" "matching T (q ! j) = Some s" "eff = Some s"
        "\<forall>k < j. matching T (q ! k) = None" by auto
    with assms Returned have "res = Some (settle (Some s)) \<and> q' = splice1 q j"
      by (auto simp: consume_once_def)
    with j show ?thesis by blast
  qed
qed


lemma consume_once_claims_first:
  assumes "\<forall>x \<in> set pre. sound_message T x \<and> matching T x = None"
    and "sound_message T m" and "matching T m = Some s"
  shows "consume_once T (pre @ m # post) = (pre @ post, Some (settle (Some s)))"
proof -
  have "scanQueue_loop T (pre @ m # post) (length pre) = Returned (int (length pre)) (Some s)"
    using assms(2,3) by (intro scan_claim) simp_all
  with scan_prefix [OF assms(1), of 0 "m # post"]
  have "scanQueue T (pre @ m # post) = Returned (int (length pre)) (Some s)"
    by (simp add: scanQueue_def)
  then show ?thesis by (simp add: consume_once_def splice1_def)
qed

lemma consume_once_nothing:
  assumes "\<forall>x \<in> set q. sound_message T x \<and> matching T x = None"
  shows "consume_once T q = (q, None)"
proof -
  from scan_prefix [OF assms, of 0 "[]"] have "scanQueue T q = Returned (- 1) None"
    by (simp add: scanQueue_def scan_end)
  then show ?thesis by (simp add: consume_once_def)
qed

lemma consume_once_sound:
  assumes "\<forall>m \<in> set q. sound_message T m"
  shows "\<forall>e. snd (consume_once T q) \<noteq> Some (Uncaught e)"
proof -
  from scanQueue_loop_total [OF assms, of 0] obtain r eff where "scanQueue T q = Returned r eff"
    by (auto simp: scanQueue_def)
  moreover have "\<forall>e. settle eff \<noteq> Uncaught e" by (cases eff rule: settle.cases) auto
  ultimately show ?thesis by (auto simp: consume_once_def)
qed

lemma first_reply_split:
  "first_reply T q = Some s \<Longrightarrow>
     \<exists>pre m post. q = pre @ m # post \<and> (\<forall>x \<in> set pre. sound_message T x \<and> matching T x = None) \<and>
       sound_message T m \<and> matching T m = Some s"
proof (induction q)
  case Nil
  then show ?case by simp
next
  case (Cons a q)
  then have a: "sound_message T a" by (simp split: if_splits)
  show ?case
  proof (cases "matching T a")
    case (Some s')
    with Cons.prems a have "matching T a = Some s" by simp
    with a have "a # q = [] @ a # q \<and> (\<forall>x \<in> set []. sound_message T x \<and> matching T x = None) \<and>
       sound_message T a \<and> matching T a = Some s" by simp
    then show ?thesis by blast
  next
    case None
    with Cons.prems a have "first_reply T q = Some s" by simp
    from Cons.IH [OF this] obtain pre m post where p: "q = pre @ m # post"
      "\<forall>x \<in> set pre. sound_message T x \<and> matching T x = None" "sound_message T m" "matching T m = Some s"
      by blast
    with a None have "a # q = (a # pre) @ m # post \<and>
       (\<forall>x \<in> set (a # pre). sound_message T x \<and> matching T x = None) \<and>
       sound_message T m \<and> matching T m = Some s" by simp
    then show ?thesis by blast
  qed
qed

lemma first_reply_append:
  "first_reply T (xs @ ys) = Some s \<Longrightarrow>
     first_reply T xs = Some s \<or>
     ((\<forall>x \<in> set xs. sound_message T x \<and> matching T x = None) \<and> first_reply T ys = Some s)"
  by (induction xs) (auto split: if_splits option.splits)

lemma consume_once_first_reply:
  assumes "first_reply T q = Some s"
  shows "\<exists>q1. consume_once T q = (q1, Some (settle (Some s)))"
proof -
  from first_reply_split [OF assms] obtain pre m post where p: "q = pre @ m # post"
    "\<forall>x \<in> set pre. sound_message T x \<and> matching T x = None" "sound_message T m" "matching T m = Some s"
    by blast
  from consume_once_claims_first [OF p(2,3,4), of post] p(1) show ?thesis by simp
qed

lemma set_consume_once: "set (fst (consume_once T q)) \<subseteq> set q"
  using set_splice1 [of q]
  by (auto simp: consume_once_def split: scan.splits)

lemma set_on_message: "set (foldl on_message q batch) \<subseteq> set q \<union> {m \<in> set batch. js_typeof m = ''object''}"
proof (induction batch arbitrary: q)
  case Nil
  then show ?case by simp
next
  case (Cons m batch)
  have "set (on_message q m) \<subseteq> set q \<union> {x \<in> {m}. js_typeof x = ''object''}"
    by (auto simp: on_message_def)
  with Cons [of "on_message q m"] show ?case by auto
qed


lemma js_get_type_well_formed: "js_get m ''type'' = Inr (JStr t) \<Longrightarrow> well_formed m"
  by (cases m) (auto split: option.splits)

lemma consume_once_settled:
  assumes "consume_once T q = (q1, Some r)" and "r = Resolved p \<or> r = Rejected e"
  shows "\<exists>m \<in> set q. matching T m = (if r = Resolved p then Some (Resolve p) else Some (Reject e))"
proof -
  from assms(2) have "\<forall>e'. r \<noteq> Uncaught e'" by auto
  with consume_once_cases [OF assms(1)]
  obtain i s where a: "i < length q" "matching T (q ! i) = Some s" "r = settle (Some s)" by auto
  from a(3) assms(2) have "Some s = (if r = Resolved p then Some (Resolve p) else Some (Reject e))"
    by (cases s) auto
  with a(2) have "matching T (q ! i) = (if r = Resolved p then Some (Resolve p) else Some (Reject e))"
    by (rule trans)
  moreover from a(1) have "q ! i \<in> set q" by (rule nth_mem)
  ultimately show ?thesis by (rule rev_bexI [rotated])
qed

lemma consume_once_None: "consume_once T q = (q1, None) \<Longrightarrow> q1 = q"
  using consume_once_cases [of T q q1 None] by auto

lemma consume_settled:
  "consume T q arrivals = (q', r) \<Longrightarrow> r = Resolved p \<or> r = Rejected e \<Longrightarrow>
     \<exists>m \<in> set q \<union> set (concat arrivals). matching T m = (if r = Resolved p then Some (Resolve p) else Some (Reject e))"
proof (induction arrivals arbitrary: q)
  case Nil
  obtain q1 res where once: "consume_once T q = (q1, res)" by (cases "consume_once T q")
  show ?case
  proof (cases res)
    case None
    with once Nil.prems show ?thesis by auto
  next
    case (Some r')
    with once Nil.prems have "consume_once T q = (q1, Some r)" by simp
    from consume_once_settled [OF this Nil.prems(2)] show ?thesis by auto
  qed
next
  case (Cons batch arrivals)
  obtain q1 res where once: "consume_once T q = (q1, res)" by (cases "consume_once T q")
  show ?case
  proof (cases res)
    case None
    with once have "q1 = q" using consume_once_None by blast
    with None Cons.prems once have "consume T (foldl on_message q batch) arrivals = (q', r)" by simp
    from Cons.IH [OF this Cons.prems(2)] obtain m
      where m: "m \<in> set (foldl on_message q batch) \<union> set (concat arrivals)"
        "matching T m = (if r = Resolved p then Some (Resolve p) else Some (Reject e))" by blast
    from m(1) set_on_message [of q batch] have "m \<in> set q \<union> set (concat (batch # arrivals))" by auto
    with m(2) show ?thesis by blast
  next
    case (Some r')
    with once Cons.prems have "consume_once T q = (q1, Some r)" by simp
    from consume_once_settled [OF this Cons.prems(2)] show ?thesis by auto
  qed
qed

lemma invoke_consume:
  "invoke h T args arrivals = (h', r) \<Longrightarrow> \<exists>q'. consume T (messageQueue h) arrivals = (q', r)"
  by (auto simp: invoke_def send_def Let_def split: prod.splits)

lemma foldl_on_message_filter:
  "foldl on_message q batch = q @ filter (\<lambda>m. js_typeof m = ''object'') batch"
  by (induction batch arbitrary: q) (auto simp: on_message_def)

lemma consume_first_reply:
  "first_reply T (q @ filter (\<lambda>m. js_typeof m = ''object'') (concat arrivals)) = Some s \<Longrightarrow>
     snd (consume T q arrivals) = settle (Some s)"
proof (induction arrivals arbitrary: q)
  case Nil
  then have "first_reply T q = Some s" by simp
  then obtain q1 where "consume_once T q = (q1, Some (settle (Some s)))"
    using consume_once_first_reply by blast
  then show ?case by simp
next
  case (Cons batch arrivals)
  let ?obj = "filter (\<lambda>m. js_typeof m = ''object'')"
  from Cons.prems have "first_reply T (q @ (?obj batch @ ?obj (concat arrivals))) = Some s" by simp
  from first_reply_append [OF this] show ?case
  proof
    assume "first_reply T q = Some s"
    then obtain q1 where "consume_once T q = (q1, Some (settle (Some s)))"
      using consume_once_first_reply by blast
    then show ?thesis by simp
  next
    assume a: "(\<forall>x \<in> set q. sound_message T x \<and> matching T x = None) \<and>
      first_reply T (?obj batch @ ?obj (concat arrivals)) = Some s"
    then have once: "consume_once T q = (q, None)" by (simp add: consume_once_nothing)
    from a Cons.prems have "first_reply T ((q @ ?obj batch) @ ?obj (concat arrivals)) = Some s" by simp
    then have "snd (consume T (q @ ?obj batch) arrivals) = settle (Some s)" by (rule Cons.IH)
    with once show ?thesis by (simp add: foldl_on_message_filter)
  qed
qed

lemma consume_nothing:
  "\<forall>x \<in> set (q @ filter (\<lambda>m. js_typeof m = ''object'') (concat arrivals)).
      sound_message T x \<and> matching T x = None \<Longrightarrow>
     consume T q arrivals = (q @ filter (\<lambda>m. js_typeof m = ''object'') (concat arrivals), Pending)"
proof (induction arrivals arbitrary: q)
  case Nil
  then have "consume_once T q = (q, None)" by (simp add: consume_once_nothing)
  then show ?case by simp
next
  case (Cons batch arrivals)
  let ?obj = "filter (\<lambda>m. js_typeof m = ''object'')"
  from Cons.prems have "consume_once T q = (q, None)" by (simp add: consume_once_nothing)
  moreover from Cons.prems
  have "\<forall>x \<in> set ((q @ ?obj batch) @ ?obj (concat arrivals)). sound_message T x \<and> matching T x = None"
    by auto
  then have "consume T (q @ ?obj batch) arrivals = ((q @ ?obj batch) @ ?obj (concat arrivals), Pending)"
    by (rule Cons.IH)
  ultimately show ?case by (simp add: foldl_on_message_filter)
qed

lemma consume_sound:
  "\<forall>x \<in> set (q @ filter (\<lambda>m. js_typeof m = ''object'') (concat arrivals)). sound_message T x \<Longrightarrow>
     snd (consume T q arrivals) \<noteq> Uncaught e"
proof (induction arrivals arbitrary: q)
  case Nil
  then have "\<forall>m \<in> set q. sound_message T m" by simp
  from consume_once_sound [OF this] show ?case
    by (auto split: prod.splits option.splits)
next
  case (Cons batch arrivals)
  let ?obj = "filter (\<lambda>m. js_typeof m = ''object'')"
  from Cons.prems have s: "\<forall>m \<in> set q. sound_message T m" by simp
  obtain q1 res where once: "consume_once T q = (q1, res)" by (cases "consume_once T q")
  show ?case
  proof (cases res)
    case None
    with once have q1: "q1 = q" using consume_once_None by blast
    from Cons.prems have "\<forall>x \<in> set ((q @ ?obj batch) @ ?obj (concat arrivals)). sound_message T x"
      by auto
    then have "snd (consume T (q @ ?obj batch) arrivals) \<noteq> Uncaught e" by (rule Cons.IH)
    with once None q1 show ?thesis by (simp add: foldl_on_message_filter)
  next
    case (Some r)
    with once consume_once_sound [OF s] show ?thesis by auto
  qed
qed

lemma snd_invoke: "snd (invoke h T args arrivals) = snd (consume T (messageQueue h) arrivals)"
  by (simp add: invoke_def send_def split_beta)

lemma invoke_first_reply:
  assumes "first_reply T (seen h arrivals) = Some s"
  shows "snd (invoke h T args arrivals) = settle (Some s)"
proof -
  from assms have "snd (consume T (messageQueue h) arrivals) = settle (Some s)"
    unfolding seen_def by (rule consume_first_reply)
  then show ?thesis by (simp add: snd_invoke)
qed

lemma other_type_sound:
  assumes "js_get m ''type'' = Inr (JStr t)" and "t \<noteq> T @ ''/done''" and "t \<noteq> T @ ''/error''"
  shows "sound_message T m \<and> matching T m = None"
  using assms js_get_type_well_formed [of m t] by (simp add: sound_message_def matching_def)

lemma consume_filter:
  "consume T q (map (filter (\<lambda>m. js_typeof m = ''object'')) arrivals) = consume T q arrivals"
proof (induction arrivals arbitrary: q)
  case Nil
  then show ?case by simp
next
  case (Cons batch arrivals)
  have "foldl on_message q' (filter (\<lambda>m. js_typeof m = ''object'') batch) = foldl on_message q' batch" for q'
    by (simp add: foldl_on_message_filter)
  with Cons show ?case by (simp split: prod.splits option.splits)
qed

subsection \<open>What a call claims\<close>

text \<open>
  C1, as amended. A call \<open>invoke(T, args)\<close> resolves with \<open>p\<close> only by claiming a received
  message whose \<^verbatim>\<open>type\<close> is \<open>T + "/done"\<close> and whose payload is \<open>p\<close>, and rejects only by
  claiming one whose \<^verbatim>\<open>type\<close> is \<open>T + "/error"\<close>, with \<^verbatim>\<open>Error(payload)\<close>. In the other
  direction, when the messages the call sees have a first message of one of these two types
  and every message up to it is sound, the call claims that message, in whatever turn of its
  poll loop the message arrives, and settles with it. Messages whose \<^verbatim>\<open>type\<close> is any other
  string, such as a longer method name that starts with \<open>T\<close>, are never claimed: the call
  stays pending however long it polls, and the queue holds all of them.
\<close>

theorem invoke_claims_done_or_error:
  "(invoke h T args arrivals = (h', Resolved p) \<longrightarrow>
      (\<exists>m \<in> received h arrivals. js_get m ''type'' = Inr (JStr (T @ ''/done'')) \<and> payload_of m = p)) \<and>
   (invoke h T args arrivals = (h', Rejected e) \<longrightarrow>
      (\<exists>m \<in> received h arrivals. js_get m ''type'' = Inr (JStr (T @ ''/error'')) \<and> e = Error (payload_of m))) \<and>
   (first_reply T (seen h arrivals) = Some s \<longrightarrow> snd (invoke h T args arrivals) = settle (Some s)) \<and>
   ((\<forall>m \<in> set (seen h arrivals).
        \<exists>t. js_get m ''type'' = Inr (JStr t) \<and> t \<noteq> T @ ''/done'' \<and> t \<noteq> T @ ''/error'') \<longrightarrow>
      invoke h T args arrivals =
        (h\<lparr>sent := sent h @ [JObj [(''type'', JStr T), (''payload'', args)]],
           messageQueue := seen h arrivals\<rparr>, Pending))"
proof (intro conjI impI)
  assume "invoke h T args arrivals = (h', Resolved p)"
  then obtain q' where "consume T (messageQueue h) arrivals = (q', Resolved p)"
    using invoke_consume by blast
  from consume_settled [OF this, of p undefined]
  show "\<exists>m \<in> received h arrivals. js_get m ''type'' = Inr (JStr (T @ ''/done'')) \<and> payload_of m = p"
    by (auto simp: received_def matching_Resolve)
next
  assume "invoke h T args arrivals = (h', Rejected e)"
  then obtain q' where "consume T (messageQueue h) arrivals = (q', Rejected e)"
    using invoke_consume by blast
  from consume_settled [OF this, of undefined e]
  show "\<exists>m \<in> received h arrivals. js_get m ''type'' = Inr (JStr (T @ ''/error'')) \<and> e = Error (payload_of m)"
    by (auto simp: received_def matching_Reject)
next
  assume "first_reply T (seen h arrivals) = Some s"
  then show "snd (invoke h T args arrivals) = settle (Some s)" by (rule invoke_first_reply)
next
  assume "\<forall>m \<in> set (seen h arrivals).
        \<exists>t. js_get m ''type'' = Inr (JStr t) \<and> t \<noteq> T @ ''/done'' \<and> t \<noteq> T @ ''/error''"
  then have "\<forall>x \<in> set (seen h arrivals). sound_message T x \<and> matching T x = None"
    using other_type_sound by blast
  then have "consume T (messageQueue h) arrivals = (seen h arrivals, Pending)"
    unfolding seen_def by (rule consume_nothing)
  then show "invoke h T args arrivals =
        (h\<lparr>sent := sent h @ [JObj [(''type'', JStr T), (''payload'', args)]],
           messageQueue := seen h arrivals\<rparr>, Pending)"
    by (simp add: invoke_def send_def)
qed

lemmas eval_defs = invoke_def send_def consume_once_def scanQueue_def scanQueue_loop.simps
  on_message_def splice1_def reply_def h0_def received_def matching_def payload_of_def
  js_Error_def seen_def sound_message_def

theorem invoke_claims_done_or_error_witness:
  "invoke h0 ''start'' JNull [[reply ''startAll/done'' (JNum 7)], [], [reply ''start/done'' (JNum 1)]] =
     (h0\<lparr>sent := [JObj [(''type'', JStr ''start''), (''payload'', JNull)]],
          messageQueue := [reply ''startAll/done'' (JNum 7)]\<rparr>, Resolved (JNum 1)) \<and>
   (\<exists>m \<in> received h0 [[reply ''startAll/done'' (JNum 7)], [], [reply ''start/done'' (JNum 1)]].
      js_get m ''type'' = Inr (JStr (''start'' @ ''/done'')) \<and> payload_of m = JNum 1) \<and>
   invoke h0 ''stop'' JUndefined [[reply ''stop/error'' (JStr ''busy'')]] =
     (h0\<lparr>sent := [JObj [(''type'', JStr ''stop''), (''payload'', JUndefined)]]\<rparr>,
      Rejected (Error (JStr ''busy''))) \<and>
   (\<exists>m \<in> received h0 [[reply ''stop/error'' (JStr ''busy'')]].
      js_get m ''type'' = Inr (JStr (''stop'' @ ''/error'')) \<and> Error (JStr ''busy'') = Error (payload_of m)) \<and>
   first_reply ''start'' (seen h0 [[reply ''startAll/done'' (JNum 7)], [], [reply ''start/done'' (JNum 1)]]) =
     Some (Resolve (JNum 1)) \<and>
   snd (invoke h0 ''start'' JNull [[reply ''startAll/done'' (JNum 7)], [], [reply ''start/done'' (JNum 1)]]) =
     settle (Some (Resolve (JNum 1))) \<and>
   seen h0 [[reply ''startAll/done'' (JNum 7)], [reply ''starter/error'' JNull]] =
     [reply ''startAll/done'' (JNum 7), reply ''starter/error'' JNull] \<and>
   invoke h0 ''start'' JNull [[reply ''startAll/done'' (JNum 7)], [reply ''starter/error'' JNull]] =
     (h0\<lparr>sent := sent h0 @ [JObj [(''type'', JStr ''start''), (''payload'', JNull)]],
          messageQueue := seen h0 [[reply ''startAll/done'' (JNum 7)], [reply ''starter/error'' JNull]]\<rparr>,
      Pending)"
proof -
  let ?a = "reply ''startAll/done'' (JNum 7)" and ?d = "reply ''start/done'' (JNum 1)"
  let ?e = "reply ''stop/error'' (JStr ''busy'')" and ?b = "reply ''starter/error'' JNull"
  let ?h1 = "h0\<lparr>sent := [JObj [(''type'', JStr ''start''), (''payload'', JNull)]], messageQueue := [?a]\<rparr>"
  let ?h2 = "h0\<lparr>sent := [JObj [(''type'', JStr ''stop''), (''payload'', JUndefined)]]\<rparr>"
  have r1: "invoke h0 ''start'' JNull [[?a], [], [?d]] = (?h1, Resolved (JNum 1))"
    by (simp add: eval_defs)
  have r2: "invoke h0 ''stop'' JUndefined [[?e]] = (?h2, Rejected (Error (JStr ''busy'')))"
    by (simp add: eval_defs)
  have f: "first_reply ''start'' (seen h0 [[?a], [], [?d]]) = Some (Resolve (JNum 1))"
    by (simp add: eval_defs)
  have sn: "seen h0 [[?a], [?b]] = [?a, ?b]"
    by (simp add: eval_defs)
  have longer: "\<forall>m \<in> set (seen h0 [[?a], [?b]]).
      \<exists>t. js_get m ''type'' = Inr (JStr t) \<and> t \<noteq> ''start'' @ ''/done'' \<and> t \<noteq> ''start'' @ ''/error''"
    by (simp add: eval_defs)
  note c = invoke_claims_done_or_error [where h = h0 and T = "''start''" and args = JNull
      and arrivals = "[[?a], [], [?d]]" and h' = ?h1 and p = "JNum 1" and s = "Resolve (JNum 1)"]
  from c r1 have c1: "\<exists>m \<in> received h0 [[?a], [], [?d]].
      js_get m ''type'' = Inr (JStr (''start'' @ ''/done'')) \<and> payload_of m = JNum 1"
    by blast
  from c f have c3: "snd (invoke h0 ''start'' JNull [[?a], [], [?d]]) = settle (Some (Resolve (JNum 1)))"
    by blast
  from invoke_claims_done_or_error [where h = h0 and T = "''start''" and args = JNull
      and arrivals = "[[?a], [?b]]"] longer
  have c4: "invoke h0 ''start'' JNull [[?a], [?b]] =
     (h0\<lparr>sent := sent h0 @ [JObj [(''type'', JStr ''start''), (''payload'', JNull)]],
          messageQueue := seen h0 [[?a], [?b]]\<rparr>, Pending)"
    by blast
  from invoke_claims_done_or_error [where h = h0 and T = "''stop''" and args = JUndefined and arrivals = "[[?e]]"
      and h' = ?h2 and e = "Error (JStr ''busy'')"] r2
  have c2: "\<exists>m \<in> received h0 [[?e]]. js_get m ''type'' = Inr (JStr (''stop'' @ ''/error'')) \<and> Error (JStr ''busy'') = Error (payload_of m)"
    by blast
  from r1 c1 r2 c2 f c3 sn c4 show ?thesis by (intro conjI)
qed

text \<open>
  A message of type \<^verbatim>\<open>start/done\<close> that is pending behind an object without a \<^verbatim>\<open>type\<close> is
  never claimed by a call of \<^verbatim>\<open>start\<close>: the scan throws before it reaches the message, in
  every turn. A message of type \<^verbatim>\<open>stop/error\<close> whose payload has a \<^verbatim>\<open>toString\<close> property
  is not claimed by a call of \<^verbatim>\<open>stop\<close> either: \<^verbatim>\<open>Error(payload)\<close> throws, the call is not
  rejected and the message stays in the queue.
\<close>

theorem matching_reply_not_claimed:
  "js_get (reply ''start/done'' (JNum 1)) ''type'' = Inr (JStr (''start'' @ ''/done'')) \<and>
   invoke h0 ''start'' JNull [[JObj [(''payload'', JNum 1)], reply ''start/done'' (JNum 1)]] =
     (h0\<lparr>sent := [JObj [(''type'', JStr ''start''), (''payload'', JNull)]],
          messageQueue := [JObj [(''payload'', JNum 1)], reply ''start/done'' (JNum 1)]\<rparr>,
      Uncaught TypeError) \<and>
   js_get (reply ''stop/error'' (JObj [(''toString'', JNum 1)])) ''type'' = Inr (JStr (''stop'' @ ''/error'')) \<and>
   invoke h0 ''stop'' JUndefined [[reply ''stop/error'' (JObj [(''toString'', JNum 1)])]] =
     (h0\<lparr>sent := [JObj [(''type'', JStr ''stop''), (''payload'', JUndefined)]],
          messageQueue := [reply ''stop/error'' (JObj [(''toString'', JNum 1)])]\<rparr>,
      Uncaught TypeError)"
  by (simp add: eval_defs)

subsection \<open>What the listener drops\<close>

text \<open>
  C6, as amended. A message whose \<^verbatim>\<open>typeof\<close> is not \<^verbatim>\<open>'object'\<close> is dropped by the
  listener: the queue is unchanged, every call ends as if the message had never been sent,
  and when the messages that are objects are all sound for the call (well-formed, and with a
  payload that \<^verbatim>\<open>Error\<close> can convert when they are the error reply to the call) no call
  ends in an uncaught exception.
\<close>

theorem non_object_messages_dropped:
  "(js_typeof message \<noteq> ''object'' \<longrightarrow> on_message q message = q) \<and>
   invoke h T args (map (filter (\<lambda>m. js_typeof m = ''object'')) arrivals) = invoke h T args arrivals \<and>
   ((\<forall>m \<in> set (seen h arrivals). sound_message T m) \<longrightarrow>
      (\<forall>e. snd (invoke h T args arrivals) \<noteq> Uncaught e))"
proof (intro conjI impI allI)
  assume "js_typeof message \<noteq> ''object''"
  then show "on_message q message = q" by (simp add: on_message_def)
next
  show "invoke h T args (map (filter (\<lambda>m. js_typeof m = ''object'')) arrivals) = invoke h T args arrivals"
    by (simp add: invoke_def send_def consume_filter)
next
  fix e
  assume "\<forall>m \<in> set (seen h arrivals). sound_message T m"
  then have "snd (consume T (messageQueue h) arrivals) \<noteq> Uncaught e"
    unfolding seen_def by (rule consume_sound)
  then show "snd (invoke h T args arrivals) \<noteq> Uncaught e"
    by (simp add: snd_invoke)
qed

theorem non_object_messages_dropped_witness:
  "js_typeof (JStr ''noise'') \<noteq> ''object'' \<and> on_message [reply ''start/done'' JNull] (JStr ''noise'') = [reply ''start/done'' JNull] \<and>
   invoke h0 ''start'' JNull [[JNum 3, reply ''start/done'' JNull, JStr ''noise'']] =
     invoke h0 ''start'' JNull [[reply ''start/done'' JNull]] \<and>
   seen h0 [[JNum 3, reply ''start/done'' JNull, JStr ''noise'']] = [reply ''start/done'' JNull] \<and>
   sound_message ''start'' (reply ''start/done'' JNull) \<and>
   snd (invoke h0 ''start'' JNull [[JNum 3, reply ''start/done'' JNull, JStr ''noise'']]) \<noteq> Uncaught TypeError"
proof -
  let ?d = "reply ''start/done'' JNull"
  have t: "js_typeof (JStr ''noise'') \<noteq> ''object''" by simp
  have sn: "seen h0 [[JNum 3, ?d, JStr ''noise'']] = [?d]" by (simp add: eval_defs)
  have sd: "sound_message ''start'' ?d" by (simp add: eval_defs)
  from sn sd have wf: "\<forall>m \<in> set (seen h0 [[JNum 3, ?d, JStr ''noise'']]). sound_message ''start'' m"
    by simp
  have f: "map (filter (\<lambda>m. js_typeof m = ''object'')) [[JNum 3, ?d, JStr ''noise'']] = [[?d]]"
    by (simp add: reply_def)
  from non_object_messages_dropped [of "JStr ''noise''" "[?d]" h0 "''start''" JNull "[[JNum 3, ?d, JStr ''noise'']]"] t wf f sn sd
  show ?thesis by simp
qed

text \<open>
  An object without a \<^verbatim>\<open>type\<close> is not a well-formed message, the listener queues it all
  the same, and the scan that reaches it throws. A well-formed error reply whose payload has
  a \<^verbatim>\<open>toString\<close> property makes the scan throw as well.
\<close>

theorem malformed_object_crashes_scan:
  "\<not> well_formed (JObj [(''payload'', JNum 1)]) \<and>
   on_message [] (JObj [(''payload'', JNum 1)]) = [JObj [(''payload'', JNum 1)]] \<and>
   scanQueue ''start'' [JObj [(''payload'', JNum 1)]] = Thrown TypeError \<and>
   snd (invoke h0 ''start'' JUndefined [[JObj [(''payload'', JNum 1)]]]) = Uncaught TypeError \<and>
   well_formed (reply ''start/error'' (JObj [(''toString'', JNull)])) \<and>
   scanQueue ''start'' [reply ''start/error'' (JObj [(''toString'', JNull)])] = Thrown TypeError \<and>
   snd (invoke h0 ''start'' JUndefined [[reply ''start/error'' (JObj [(''toString'', JNull)])]]) =
     Uncaught TypeError"
  by (simp add: eval_defs)

subsection \<open>One message, one call\<close>

lemma turn_conserves:
  "turn Ts q = (q', rs) \<Longrightarrow> mset q' \<subseteq># mset q \<and> length q = length q' + length (filter claimed rs)"
proof (induction Ts arbitrary: q q' rs)
  case Nil
  then show ?case by simp
next
  case (Cons T Ts)
  obtain q1 res where once: "consume_once T q = (q1, res)" by (cases "consume_once T q")
  from consume_once_cases [OF once] show ?case
  proof (elim disjE exE conjE)
    assume a: "res = None" "q1 = q"
    obtain q2 rs2 where t: "turn Ts q = (q2, rs2)" by (cases "turn Ts q")
    with Cons.prems once a have "q' = q2" "rs = (T, None) # rs2" by auto
    with Cons.IH [OF t] show ?thesis by simp
  next
    fix e
    assume "res = Some (Uncaught e)" "q1 = q"
    with Cons.prems once show ?thesis by auto
  next
    fix i s
    assume a: "i < length q" "res = Some (settle (Some s))" "q1 = splice1 q i"
    obtain q2 rs2 where t: "turn Ts q1 = (q2, rs2)" by (cases "turn Ts q1")
    have cl: "claimed (T, Some (settle (Some s)))" by (cases s) auto
    have "\<forall>e. settle (Some s) \<noteq> Uncaught e" by (cases s) auto
    with Cons.prems once a t have "q' = q2" "rs = (T, Some (settle (Some s))) # rs2"
      by (auto split: promise.splits)
    moreover have "mset q1 \<subseteq># add_mset (q ! i) (mset q1)" by simp
    with a have "mset q1 \<subseteq># mset q" using mset_splice1 [of i q] by simp
    moreover from a have "length q = Suc (length q1)" using length_splice1 [of i q] by simp
    ultimately show ?thesis using Cons.IH [OF t] cl
      by (auto intro: subset_mset.order_trans)
  qed
qed

text \<open>
  C8. A run of \<^verbatim>\<open>consume\<close> that settles its call found the first message of the queue
  whose \<^verbatim>\<open>type\<close> matches, and removes exactly that message; a run that finds nothing leaves
  the queue as it is. When several outstanding calls scan the queue in one turn, the
  messages left are messages of the queue before, and the queue has lost as many messages
  as calls were settled: no message settles two calls.
\<close>

theorem message_consumed_at_most_once:
  "(consume_once T q = (q', Some r) \<and> (\<forall>e. r \<noteq> Uncaught e) \<longrightarrow>
      (\<exists>i < length q. matching T (q ! i) \<noteq> None \<and> (\<forall>k < i. matching T (q ! k) = None) \<and>
         q' = take i q @ drop (Suc i) q \<and> mset q = add_mset (q ! i) (mset q'))) \<and>
   (consume_once T q = (q', None) \<longrightarrow> q' = q) \<and>
   (turn Ts q = (q'', rs) \<longrightarrow>
      mset q'' \<subseteq># mset q \<and> length q = length q'' + length (filter claimed rs))"
proof (intro conjI impI)
  assume a: "consume_once T q = (q', Some r) \<and> (\<forall>e. r \<noteq> Uncaught e)"
  with consume_once_cases [of T q q' "Some r"]
  obtain i s where i: "i < length q" "matching T (q ! i) = Some s" "\<forall>k < i. matching T (q ! k) = None"
      "q' = splice1 q i" by auto
  from i(1,4) have "mset q = add_mset (q ! i) (mset q')" using mset_splice1 [of i q] by simp
  with i show "\<exists>i < length q. matching T (q ! i) \<noteq> None \<and> (\<forall>k < i. matching T (q ! k) = None) \<and>
         q' = take i q @ drop (Suc i) q \<and> mset q = add_mset (q ! i) (mset q')"
    by (auto simp: splice1_def)
next
  assume "consume_once T q = (q', None)"
  then show "q' = q" by (rule consume_once_None)
next
  assume "turn Ts q = (q'', rs)"
  then show "mset q'' \<subseteq># mset q" and "length q = length q'' + length (filter claimed rs)"
    using turn_conserves by blast+
qed

theorem message_consumed_at_most_once_witness:
  "consume_once ''stop'' [reply ''start/done'' JNull, reply ''stop/done'' (JNum 1), reply ''stop/done'' (JNum 2)] =
     ([reply ''start/done'' JNull, reply ''stop/done'' (JNum 2)], Some (Resolved (JNum 1))) \<and>
   mset [reply ''start/done'' JNull, reply ''stop/done'' (JNum 1), reply ''stop/done'' (JNum 2)] =
     add_mset (reply ''stop/done'' (JNum 1)) (mset [reply ''start/done'' JNull, reply ''stop/done'' (JNum 2)]) \<and>
   turn [''stop'', ''getStatus'', ''stop'', ''stop'']
        [reply ''start/done'' JNull, reply ''stop/done'' (JNum 1), reply ''stop/done'' (JNum 2)] =
     ([reply ''start/done'' JNull],
      [(''stop'', Some (Resolved (JNum 1))), (''getStatus'', None), (''stop'', Some (Resolved (JNum 2))),
       (''stop'', None)]) \<and>
   mset [reply ''start/done'' JNull] \<subseteq>#
     mset [reply ''start/done'' JNull, reply ''stop/done'' (JNum 1), reply ''stop/done'' (JNum 2)]"
proof -
  let ?q = "[reply ''start/done'' JNull, reply ''stop/done'' (JNum 1), reply ''stop/done'' (JNum 2)]"
  let ?q' = "[reply ''start/done'' JNull, reply ''stop/done'' (JNum 2)]"
  let ?rs = "[(''stop'', Some (Resolved (JNum 1))), (''getStatus'', None), (''stop'', Some (Resolved (JNum 2))),
       (''stop'', None)]"
  have once: "consume_once ''stop'' ?q = (?q', Some (Resolved (JNum 1)))"
    by (simp add: eval_defs)
  have t: "turn [''stop'', ''getStatus'', ''stop'', ''stop''] ?q = ([reply ''start/done'' JNull], ?rs)"
    by (simp add: eval_defs)
  from message_consumed_at_most_once [of "''stop''" ?q ?q' "Resolved (JNum 1)"
      "[''stop'', ''getStatus'', ''stop'', ''stop'']" "[reply ''start/done'' JNull]" ?rs] once t
  have sub: "mset [reply ''start/done'' JNull] \<subseteq># mset ?q"
    by blast
  have m: "mset ?q = add_mset (reply ''stop/done'' (JNum 1)) (mset ?q')" by simp
  from once m t sub show ?thesis by (intro conjI)
qed

subsection \<open>The registry as a map\<close>

lemma Map_get_set: "Map_get (Map_set es k v) k' = (if k' = k then Some v else Map_get es k')"
  by (induction es) (auto simp: Map_get_def)

lemma Map_get_delete: "Map_get (Map_delete es k) k' = (if k' = k then None else Map_get es k')"
  by (induction es) (auto simp: Map_get_def Map_delete_def)

lemma keys_Map_set:
  "map fst (Map_set es k v) = (if k \<in> set (map fst es) then map fst es else map fst es @ [k])"
  by (induction es) force+

lemma keys_Map_delete: "map fst (Map_delete es k) = filter (\<lambda>k'. k' \<noteq> k) (map fst es)"
  by (induction es) (auto simp: Map_delete_def)


lemma Map_get_Some_iff: "distinct (map fst es) \<Longrightarrow> Map_get es k = Some v \<longleftrightarrow> (k, v) \<in> set es"
  by (simp add: Map_get_def)

lemma distinct_Map_set: "distinct (map fst es) \<Longrightarrow> distinct (map fst (Map_set es k v))"
  by (simp add: keys_Map_set)

lemma distinct_Map_delete: "distinct (map fst es) \<Longrightarrow> distinct (map fst (Map_delete es k))"
  by (simp add: keys_Map_delete)

lemma Map_set_same: "Map_get es k = Some v \<Longrightarrow> Map_set es k v = es"
  by (induction es) (auto simp: Map_get_def split: if_splits)

lemma Map_set_twice: "Map_set (Map_set es k v) k v' = Map_set es k v'"
  by (induction es) auto

subsection \<open>What a call does to its handle\<close>


lemma await_invoke_eq:
  "await_invoke m sid sub T args arrivals =
     (m\<lparr>subprocesses := Map_set (subprocesses m) sid (Some (fst (invoke sub T args arrivals)))\<rparr>,
      snd (invoke sub T args arrivals))"
  by (simp add: await_invoke_def split_beta)

lemma sent_invoke:
  "sent (fst (invoke sub T args arrivals)) = sent sub @ [JObj [(''type'', JStr T), (''payload'', args)]]"
  by (simp add: invoke_def send_def split_beta)

lemma entry_state_simps:
  "entry_state m sid = Absent \<longleftrightarrow> Map_get (subprocesses m) sid = None"
  "entry_state m sid = Tombstoned \<longleftrightarrow> Map_get (subprocesses m) sid = Some None"
  "entry_state m sid = Active \<longleftrightarrow> (\<exists>sub. Map_get (subprocesses m) sid = Some (Some sub))"
  by (auto simp: entry_state_def split: option.splits)

lemma entry_not_active:
  "entry_state m sid = Absent \<or> entry_state m sid = Tombstoned \<longleftrightarrow>
     Map_get (subprocesses m) sid = None \<or> Map_get (subprocesses m) sid = Some None"
  by (simp add: entry_state_simps)

lemma stop_resolved:
  assumes "stop m sid arrivals = (m', Resolved v)"
  shows "\<exists>sub. Map_get (subprocesses m) sid = Some (Some sub) \<and>
           m' = m\<lparr>killed := killed m @ [pid sub], subprocesses := Map_set (subprocesses m) sid None\<rparr>"
  using assms
  by (auto simp: stop_def await_invoke_eq Map_set_twice split: option.splits promise.splits)

text \<open>
  C5. \<^verbatim>\<open>stop\<close> on an id that is absent or tombstoned changes nothing and is rejected with
  \<^verbatim>\<open>Error(`service(${id}) is not found`)\<close>. A \<^verbatim>\<open>stop\<close> that resolves leaves the id
  tombstoned, so that a second \<^verbatim>\<open>stop\<close> is rejected with that error.
\<close>

theorem stop_not_found:
  "(entry_state m sid = Absent \<or> entry_state m sid = Tombstoned \<longrightarrow>
      stop m sid arrivals = (m, Rejected (Error (JStr (''service('' @ sid @ '') is not found''))))) \<and>
   (stop m sid arrivals = (m', Resolved v) \<longrightarrow>
      entry_state m' sid = Tombstoned \<and>
      stop m' sid arrivals' = (m', Rejected (Error (JStr (''service('' @ sid @ '') is not found'')))))"
proof (intro conjI impI)
  assume "entry_state m sid = Absent \<or> entry_state m sid = Tombstoned"
  then show "stop m sid arrivals = (m, Rejected (Error (JStr (''service('' @ sid @ '') is not found''))))"
    by (auto simp: entry_not_active stop_def not_found_def)
next
  assume "stop m sid arrivals = (m', Resolved v)"
  from stop_resolved [OF this]
  have t: "Map_get (subprocesses m') sid = Some None" by (auto simp: Map_get_set)
  then show "entry_state m' sid = Tombstoned" by (simp add: entry_state_simps)
  from t show "stop m' sid arrivals' = (m', Rejected (Error (JStr (''service('' @ sid @ '') is not found''))))"
    by (simp add: stop_def not_found_def)
qed

text \<open>
  C7. \<^verbatim>\<open>getMetrics\<close> on an id that is absent or tombstoned resolves with the empty array
  for every kind and changes nothing. On an active id each of the five kinds is one call of
  \<^verbatim>\<open>invoke\<close> with its method name on the handle of the id: the message sent carries that
  name, and the result is the result of the call. The five names differ.
\<close>

theorem getMetrics_dispatch:
  "(entry_state m sid = Absent \<or> entry_state m sid = Tombstoned \<longrightarrow>
      getMetrics m sid type arrivals = (m, Resolved (JArr []))) \<and>
   (Map_get (subprocesses m) sid = Some (Some sub) \<and>
    (type, name) \<in> set [(JStr ''cpu'', ''getCPUMetrics''), (JStr ''memory'', ''getMemoryMetrics''),
       (JStr ''speed'', ''getSpeedMetrics''), (JStr ''connections'', ''getConnectionsMetrics''),
       (JStr ''traffic'', ''getTrafficMetrics'')] \<longrightarrow>
      snd (getMetrics m sid type arrivals) = snd (invoke sub name JUndefined arrivals) \<and>
      Map_get (subprocesses (fst (getMetrics m sid type arrivals))) sid =
        Some (Some (fst (invoke sub name JUndefined arrivals))) \<and>
      sent (fst (invoke sub name JUndefined arrivals)) =
        sent sub @ [JObj [(''type'', JStr name), (''payload'', JUndefined)]]) \<and>
   distinct [''getCPUMetrics'', ''getMemoryMetrics'', ''getSpeedMetrics'', ''getConnectionsMetrics'',
     ''getTrafficMetrics'']"
proof (intro conjI impI)
  assume "entry_state m sid = Absent \<or> entry_state m sid = Tombstoned"
  then show "getMetrics m sid type arrivals = (m, Resolved (JArr []))"
    by (auto simp: entry_not_active getMetrics_def)
next
  assume a: "Map_get (subprocesses m) sid = Some (Some sub) \<and>
    (type, name) \<in> set [(JStr ''cpu'', ''getCPUMetrics''), (JStr ''memory'', ''getMemoryMetrics''),
       (JStr ''speed'', ''getSpeedMetrics''), (JStr ''connections'', ''getConnectionsMetrics''),
       (JStr ''traffic'', ''getTrafficMetrics'')]"
  then have "getMetrics m sid type arrivals = await_invoke m sid sub name JUndefined arrivals"
    by (auto simp: getMetrics_def)
  then show "snd (getMetrics m sid type arrivals) = snd (invoke sub name JUndefined arrivals)"
    and "Map_get (subprocesses (fst (getMetrics m sid type arrivals))) sid =
        Some (Some (fst (invoke sub name JUndefined arrivals)))"
    by (simp_all add: await_invoke_eq Map_get_set)
  show "sent (fst (invoke sub name JUndefined arrivals)) =
        sent sub @ [JObj [(''type'', JStr name), (''payload'', JUndefined)]]"
    by (rule sent_invoke)
next
  show "distinct [''getCPUMetrics'', ''getMemoryMetrics'', ''getSpeedMetrics'', ''getConnectionsMetrics'',
     ''getTrafficMetrics'']" by simp
qed

lemma map_of_spread:
  "map_of (foldl (\<lambda>obj (k, x). Map_set obj k x) base props) k =
     (case map_of (rev props) k of Some v \<Rightarrow> Some v | None \<Rightarrow> map_of base k)"
proof (induction props arbitrary: base)
  case Nil
  then show ?case by simp
next
  case (Cons p props)
  obtain k0 v0 where p: "p = (k0, v0)" by (cases p)
  have "map_of (Map_set base k0 v0) k = (if k = k0 then Some v0 else map_of base k)"
    using Map_get_set [of base k0 v0 k] by (simp add: Map_get_def)
  with Cons [of "Map_set base k0 v0"] p show ?case
    by (auto simp: map_add_def split: option.splits)
qed

text \<open>
  C3. \<^verbatim>\<open>getServiceInfo\<close> resolves with \<^verbatim>\<open>{status: INIT}\<close> for an id that is absent and with
  \<^verbatim>\<open>{status: STOPPED}\<close> for one that is tombstoned, changing nothing. For an active id whose
  worker answers \<^verbatim>\<open>getStatus\<close> with a reply, it resolves with the object that has every
  property of the reply (the later value where the reply lists a key twice) and, unless the
  reply has a \<^verbatim>\<open>status\<close> of its own, the status \<^verbatim>\<open>RUNNING\<close>, and no other property.
\<close>

theorem getServiceInfo_status:
  "(entry_state m sid = Absent \<longrightarrow>
      getServiceInfo c m sid arrivals = (m, Resolved (JObj [(''status'', SERVICE_STATUS_INIT c)]))) \<and>
   (entry_state m sid = Tombstoned \<longrightarrow>
      getServiceInfo c m sid arrivals = (m, Resolved (JObj [(''status'', SERVICE_STATUS_STOPPED c)]))) \<and>
   (Map_get (subprocesses m) sid = Some (Some sub) \<and>
    invoke sub ''getStatus'' JUndefined arrivals = (sub', Resolved answer) \<longrightarrow>
      (\<exists>info. getServiceInfo c m sid arrivals =
                (m\<lparr>subprocesses := Map_set (subprocesses m) sid (Some sub')\<rparr>, Resolved (JObj info)) \<and>
              (\<forall>k. map_of info k =
                 (case map_of (rev (own_props answer)) k of
                    Some v \<Rightarrow> Some v
                  | None \<Rightarrow> if k = ''status'' then Some (SERVICE_STATUS_RUNNING c) else None))))"
proof (intro conjI impI)
  assume "entry_state m sid = Absent"
  then show "getServiceInfo c m sid arrivals = (m, Resolved (JObj [(''status'', SERVICE_STATUS_INIT c)]))"
    by (simp add: entry_state_simps getServiceInfo_def)
next
  assume "entry_state m sid = Tombstoned"
  then show "getServiceInfo c m sid arrivals = (m, Resolved (JObj [(''status'', SERVICE_STATUS_STOPPED c)]))"
    by (simp add: entry_state_simps getServiceInfo_def)
next
  assume a: "Map_get (subprocesses m) sid = Some (Some sub) \<and>
    invoke sub ''getStatus'' JUndefined arrivals = (sub', Resolved answer)"
  let ?info = "spread [(''status'', SERVICE_STATUS_RUNNING c)] answer"
  from a have "getServiceInfo c m sid arrivals =
      (m\<lparr>subprocesses := Map_set (subprocesses m) sid (Some sub')\<rparr>, Resolved (JObj ?info))"
    by (simp add: getServiceInfo_def await_invoke_eq)
  moreover have "\<forall>k. map_of ?info k =
      (case map_of (rev (own_props answer)) k of
         Some v \<Rightarrow> Some v
       | None \<Rightarrow> if k = ''status'' then Some (SERVICE_STATUS_RUNNING c) else None)"
    by (auto simp: spread_def map_of_spread split: option.splits)
  ultimately show "\<exists>info. getServiceInfo c m sid arrivals =
                (m\<lparr>subprocesses := Map_set (subprocesses m) sid (Some sub')\<rparr>, Resolved (JObj info)) \<and>
              (\<forall>k. map_of info k =
                 (case map_of (rev (own_props answer)) k of
                    Some v \<Rightarrow> Some v
                  | None \<Rightarrow> if k = ''status'' then Some (SERVICE_STATUS_RUNNING c) else None))"
    by blast
qed

lemmas registry_defs = start_def stop_def getServiceInfo_def getMetrics_def getServices_def
  await_invoke_def fork_def init_def entry_state_def not_found_def Map_get_def Map_delete_def
  spread_def c0_def no_arrivals_def answering_def js_set_def array_index_def digit_value_def
  string_of_nat.simps

theorem stop_not_found_witness:
  "entry_state init ''svc1'' = Absent \<and>
   stop init ''svc1'' [] = (init, Rejected (Error (JStr ''service(svc1) is not found''))) \<and>
   stop \<lparr>subprocesses = [(''svc1'', Some h0)], forked = 1, killed = []\<rparr> ''svc1'' [[reply ''stop/done'' JNull]] =
     (\<lparr>subprocesses = [(''svc1'', None)], forked = 1, killed = [0]\<rparr>, Resolved JUndefined) \<and>
   entry_state \<lparr>subprocesses = [(''svc1'', None)], forked = 1, killed = [0]\<rparr> ''svc1'' = Tombstoned \<and>
   stop \<lparr>subprocesses = [(''svc1'', None)], forked = 1, killed = [0]\<rparr> ''svc1'' [[reply ''stop/done'' JNull]] =
     (\<lparr>subprocesses = [(''svc1'', None)], forked = 1, killed = [0]\<rparr>,
      Rejected (Error (JStr ''service(svc1) is not found'')))"
proof -
  let ?m1 = "\<lparr>subprocesses = [(''svc1'', Some h0)], forked = 1, killed = []\<rparr>"
  let ?m2 = "\<lparr>subprocesses = [(''svc1'', None)], forked = 1, killed = [0]\<rparr>"
  have a: "entry_state init ''svc1'' = Absent" by (simp add: registry_defs)
  have s: "stop ?m1 ''svc1'' [[reply ''stop/done'' JNull]] = (?m2, Resolved JUndefined)"
    by (simp add: registry_defs eval_defs)
  from stop_not_found [where m = init and sid = "''svc1''" and arrivals = "[]"] a
  have r1: "stop init ''svc1'' [] = (init, Rejected (Error (JStr ''service(svc1) is not found'')))"
    by simp
  from stop_not_found [where m = ?m1 and sid = "''svc1''" and arrivals = "[[reply ''stop/done'' JNull]]"
      and m' = ?m2 and v = JUndefined and arrivals' = "[[reply ''stop/done'' JNull]]"] s
  have r2: "entry_state ?m2 ''svc1'' = Tombstoned"
    and r3: "stop ?m2 ''svc1'' [[reply ''stop/done'' JNull]] = (?m2, Rejected (Error (JStr ''service(svc1) is not found'')))"
    by simp_all
  from a r1 s r2 r3 show ?thesis by (intro conjI)
qed

theorem getMetrics_dispatch_witness:
  "entry_state \<lparr>subprocesses = [(''svc1'', None)], forked = 1, killed = [0]\<rparr> ''svc1'' = Tombstoned \<and>
   getMetrics \<lparr>subprocesses = [(''svc1'', None)], forked = 1, killed = [0]\<rparr> ''svc1'' (JStr ''cpu'') [] =
     (\<lparr>subprocesses = [(''svc1'', None)], forked = 1, killed = [0]\<rparr>, Resolved (JArr [])) \<and>
   snd (getMetrics \<lparr>subprocesses = [(''svc1'', Some h0)], forked = 1, killed = []\<rparr> ''svc1'' (JStr ''traffic'')
          [[reply ''getTrafficMetrics/done'' (JArr [JNum 1])]]) = Resolved (JArr [JNum 1]) \<and>
   Map_get (subprocesses (fst (getMetrics \<lparr>subprocesses = [(''svc1'', Some h0)], forked = 1, killed = []\<rparr>
          ''svc1'' (JStr ''traffic'') [[reply ''getTrafficMetrics/done'' (JArr [JNum 1])]]))) ''svc1'' =
     Some (Some (h0\<lparr>sent := [JObj [(''type'', JStr ''getTrafficMetrics''), (''payload'', JUndefined)]]\<rparr>))"
proof -
  let ?m1 = "\<lparr>subprocesses = [(''svc1'', Some h0)], forked = 1, killed = []\<rparr>"
  let ?m2 = "\<lparr>subprocesses = [(''svc1'', None)], forked = 1, killed = [0]\<rparr>"
  let ?arr = "[[reply ''getTrafficMetrics/done'' (JArr [JNum 1])]]"
  have t: "entry_state ?m2 ''svc1'' = Tombstoned" by (simp add: registry_defs)
  have g: "Map_get (subprocesses ?m1) ''svc1'' = Some (Some h0)" by (simp add: registry_defs)
  have i: "invoke h0 ''getTrafficMetrics'' JUndefined ?arr =
      (h0\<lparr>sent := [JObj [(''type'', JStr ''getTrafficMetrics''), (''payload'', JUndefined)]]\<rparr>,
       Resolved (JArr [JNum 1]))"
    by (simp add: eval_defs)
  from getMetrics_dispatch [where m = ?m2 and sid = "''svc1''" and type = "JStr ''cpu''" and arrivals = "[]"] t
  have r1: "getMetrics ?m2 ''svc1'' (JStr ''cpu'') [] = (?m2, Resolved (JArr []))" by simp
  from getMetrics_dispatch [where m = ?m1 and sid = "''svc1''" and type = "JStr ''traffic''" and arrivals = ?arr
      and sub = h0 and name = "''getTrafficMetrics''"] g i
  have r2: "snd (getMetrics ?m1 ''svc1'' (JStr ''traffic'') ?arr) = Resolved (JArr [JNum 1])"
    and r3: "Map_get (subprocesses (fst (getMetrics ?m1 ''svc1'' (JStr ''traffic'') ?arr))) ''svc1'' =
      Some (Some (h0\<lparr>sent := [JObj [(''type'', JStr ''getTrafficMetrics''), (''payload'', JUndefined)]]\<rparr>))"
    by simp_all
  from t r1 r2 r3 show ?thesis by (intro conjI)
qed

theorem getServiceInfo_status_witness:
  "entry_state init ''svc1'' = Absent \<and>
   getServiceInfo c0 init ''svc1'' [] = (init, Resolved (JObj [(''status'', JStr ''INIT'')])) \<and>
   entry_state \<lparr>subprocesses = [(''svc1'', None)], forked = 1, killed = [0]\<rparr> ''svc1'' = Tombstoned \<and>
   getServiceInfo c0 \<lparr>subprocesses = [(''svc1'', None)], forked = 1, killed = [0]\<rparr> ''svc1'' [] =
     (\<lparr>subprocesses = [(''svc1'', None)], forked = 1, killed = [0]\<rparr>, Resolved (JObj [(''status'', JStr ''STOPPED'')])) \<and>
   getServiceInfo c0 \<lparr>subprocesses = [(''svc1'', Some h0)], forked = 1, killed = []\<rparr> ''svc1''
       [[reply ''getStatus/done'' (JObj [(''connections'', JNum 2)])]] =
     (\<lparr>subprocesses = [(''svc1'', Some (h0\<lparr>sent := [JObj [(''type'', JStr ''getStatus''), (''payload'', JUndefined)]]\<rparr>))],
       forked = 1, killed = []\<rparr>,
      Resolved (JObj [(''status'', JStr ''RUNNING''), (''connections'', JNum 2)])) \<and>
   (\<exists>info. Resolved (JObj [(''status'', JStr ''RUNNING''), (''connections'', JNum 2)]) = Resolved (JObj info) \<and>
      map_of info ''status'' = Some (JStr ''RUNNING'') \<and> map_of info ''connections'' = Some (JNum 2))"
proof -
  let ?m1 = "\<lparr>subprocesses = [(''svc1'', Some h0)], forked = 1, killed = []\<rparr>"
  let ?m2 = "\<lparr>subprocesses = [(''svc1'', None)], forked = 1, killed = [0]\<rparr>"
  let ?arr = "[[reply ''getStatus/done'' (JObj [(''connections'', JNum 2)])]]"
  let ?h1 = "h0\<lparr>sent := [JObj [(''type'', JStr ''getStatus''), (''payload'', JUndefined)]]\<rparr>"
  have a: "entry_state init ''svc1'' = Absent" and t: "entry_state ?m2 ''svc1'' = Tombstoned"
    by (simp_all add: registry_defs)
  have g: "Map_get (subprocesses ?m1) ''svc1'' = Some (Some h0)" by (simp add: registry_defs)
  have i: "invoke h0 ''getStatus'' JUndefined ?arr = (?h1, Resolved (JObj [(''connections'', JNum 2)]))"
    by (simp add: eval_defs)
  have run: "getServiceInfo c0 ?m1 ''svc1'' ?arr =
     (\<lparr>subprocesses = [(''svc1'', Some ?h1)], forked = 1, killed = []\<rparr>,
      Resolved (JObj [(''status'', JStr ''RUNNING''), (''connections'', JNum 2)]))"
    by (simp add: registry_defs eval_defs)
  from getServiceInfo_status [where m = init and sid = "''svc1''" and c = c0 and arrivals = "[]"] a
  have r1: "getServiceInfo c0 init ''svc1'' [] = (init, Resolved (JObj [(''status'', JStr ''INIT'')]))"
    by (simp add: c0_def)
  from getServiceInfo_status [where m = ?m2 and sid = "''svc1''" and c = c0 and arrivals = "[]"] t
  have r2: "getServiceInfo c0 ?m2 ''svc1'' [] = (?m2, Resolved (JObj [(''status'', JStr ''STOPPED'')]))"
    by (simp add: c0_def)
  from getServiceInfo_status [where m = ?m1 and sid = "''svc1''" and c = c0 and arrivals = ?arr and sub = h0
      and sub' = ?h1 and answer = "JObj [(''connections'', JNum 2)]"] g i
  obtain info where info: "getServiceInfo c0 ?m1 ''svc1'' ?arr =
        (?m1\<lparr>subprocesses := Map_set (subprocesses ?m1) ''svc1'' (Some ?h1)\<rparr>, Resolved (JObj info))"
      "\<forall>k. map_of info k =
         (case map_of (rev (own_props (JObj [(''connections'', JNum 2)]))) k of
            Some v \<Rightarrow> Some v
          | None \<Rightarrow> if k = ''status'' then Some (SERVICE_STATUS_RUNNING c0) else None)"
    by blast
  from info(2) have "map_of info ''status'' = Some (JStr ''RUNNING'')" "map_of info ''connections'' = Some (JNum 2)"
    by (simp_all add: c0_def)
  moreover from info(1) run have "Resolved (JObj [(''status'', JStr ''RUNNING''), (''connections'', JNum 2)]) = Resolved (JObj info)"
    by simp
  ultimately have r3: "\<exists>info. Resolved (JObj [(''status'', JStr ''RUNNING''), (''connections'', JNum 2)]) = Resolved (JObj info) \<and>
      map_of info ''status'' = Some (JStr ''RUNNING'') \<and> map_of info ''connections'' = Some (JNum 2)"
    by blast
  from a r1 t r2 run r3 show ?thesis by (intro conjI)
qed

subsection \<open>Failed handshakes\<close>


lemma Map_delete_set: "Map_delete (Map_set es k v) k = Map_delete es k"
  by (induction es) (auto simp: Map_delete_def)

lemma Map_set_append: "Map_get es k = None \<Longrightarrow> Map_set es k v = es @ [(k, v)]"
  by (induction es) (auto simp: Map_get_def split: if_splits)

lemma start_handle:
  "\<exists>m1 sub. ((Map_get (subprocesses m) sid = Some (Some sub) \<and> m1 = m) \<or>
             (entry_state m sid \<noteq> Active \<and> sub = snd (fork m) \<and>
              m1 = m\<lparr>forked := Suc (forked m), subprocesses := Map_set (subprocesses m) sid (Some sub)\<rparr>)) \<and>
     start m sid config arrivals =
       (case snd (invoke sub ''start'' config arrivals) of
          Resolved payload \<Rightarrow>
            (m1\<lparr>subprocesses := Map_set (subprocesses m1) sid (Some (fst (invoke sub ''start'' config arrivals)))\<rparr>,
             Resolved JUndefined)
        | Rejected err \<Rightarrow> (m1\<lparr>subprocesses := Map_delete (subprocesses m1) sid\<rparr>, Rejected err)
        | Pending \<Rightarrow>
            (m1\<lparr>subprocesses := Map_set (subprocesses m1) sid (Some (fst (invoke sub ''start'' config arrivals)))\<rparr>,
             Pending)
        | Uncaught e \<Rightarrow>
            (m1\<lparr>subprocesses := Map_set (subprocesses m1) sid (Some (fst (invoke sub ''start'' config arrivals)))\<rparr>,
             Uncaught e))"
proof (cases "Map_get (subprocesses m) sid")
  case None
  then show ?thesis
    by (auto simp: start_def await_invoke_eq fork_def entry_state_def Map_delete_set Map_set_twice
        split: promise.splits)
next
  case (Some v)
  then show ?thesis
    by (cases v)
      (auto simp: start_def await_invoke_eq fork_def entry_state_def Map_delete_set Map_set_twice
        split: promise.splits)
qed

lemma start_rejected:
  assumes "start m sid config arrivals = (m', Rejected err)"
  shows "\<exists>sub. (Map_get (subprocesses m) sid = Some (Some sub) \<or> entry_state m sid \<noteq> Active \<and> sub = snd (fork m)) \<and>
           snd (invoke sub ''start'' config arrivals) = Rejected err \<and>
           subprocesses m' = Map_delete (subprocesses m) sid \<and> killed m' = killed m \<and>
           forked m' = (if entry_state m sid = Active then forked m else Suc (forked m))"
proof -
  obtain m1 sub where h:
    "(Map_get (subprocesses m) sid = Some (Some sub) \<and> m1 = m) \<or>
     (entry_state m sid \<noteq> Active \<and> sub = snd (fork m) \<and>
      m1 = m\<lparr>forked := Suc (forked m), subprocesses := Map_set (subprocesses m) sid (Some sub)\<rparr>)"
    and s: "start m sid config arrivals =
       (case snd (invoke sub ''start'' config arrivals) of
          Resolved payload \<Rightarrow>
            (m1\<lparr>subprocesses := Map_set (subprocesses m1) sid (Some (fst (invoke sub ''start'' config arrivals)))\<rparr>,
             Resolved JUndefined)
        | Rejected err \<Rightarrow> (m1\<lparr>subprocesses := Map_delete (subprocesses m1) sid\<rparr>, Rejected err)
        | Pending \<Rightarrow>
            (m1\<lparr>subprocesses := Map_set (subprocesses m1) sid (Some (fst (invoke sub ''start'' config arrivals)))\<rparr>,
             Pending)
        | Uncaught e \<Rightarrow>
            (m1\<lparr>subprocesses := Map_set (subprocesses m1) sid (Some (fst (invoke sub ''start'' config arrivals)))\<rparr>,
             Uncaught e))"
    using start_handle [of m sid config arrivals] by blast
  from s assms have r: "snd (invoke sub ''start'' config arrivals) = Rejected err"
    and m': "m' = m1\<lparr>subprocesses := Map_delete (subprocesses m1) sid\<rparr>"
    by (auto split: promise.splits)
  from h m' have "subprocesses m' = Map_delete (subprocesses m) sid \<and> killed m' = killed m \<and>
      forked m' = (if entry_state m sid = Active then forked m else Suc (forked m))"
    by (auto simp: Map_delete_set entry_state_simps)
  with h r show ?thesis by blast
qed

lemma start_fresh_done:
  assumes "Map_get (subprocesses m) sid = None"
  shows "start m sid config [[reply ''start/done'' p]] =
     (m\<lparr>forked := Suc (forked m),
        subprocesses := subprocesses m @
          [(sid, Some \<lparr>pid = forked m, sent = [JObj [(''type'', JStr ''start''), (''payload'', config)]],
                      messageQueue = []\<rparr>)]\<rparr>,
      Resolved JUndefined)"
proof -
  have app: "Map_set (subprocesses m) sid v = subprocesses m @ [(sid, v)]" for v
    using assms by (rule Map_set_append)
  have inv: "invoke \<lparr>pid = forked m, sent = [], messageQueue = []\<rparr> ''start'' config [[reply ''start/done'' p]] =
      (\<lparr>pid = forked m, sent = [JObj [(''type'', JStr ''start''), (''payload'', config)]], messageQueue = []\<rparr>,
       Resolved p)"
    by (simp add: eval_defs)
  from assms have "start m sid config [[reply ''start/done'' p]] =
     (m\<lparr>forked := Suc (forked m),
        subprocesses := Map_set (subprocesses m) sid
          (Some \<lparr>pid = forked m, sent = [JObj [(''type'', JStr ''start''), (''payload'', config)]],
                  messageQueue = []\<rparr>)\<rparr>,
      Resolved JUndefined)"
    by (simp add: start_def fork_def await_invoke_def inv Map_set_twice)
  then show ?thesis by (simp only: app)
qed

text \<open>
  C4. When \<^verbatim>\<open>start\<close> is rejected, the entry of the id is gone: the id is absent and
  \<^verbatim>\<open>getServiceInfo\<close> resolves with \<^verbatim>\<open>{status: INIT}\<close>. The error is the one with which the
  \<^verbatim>\<open>start\<close> call on the handle (the one registered, or the one just forked) was rejected.
  A later \<^verbatim>\<open>start\<close> of the id forks a new child, with a number not used before and an empty
  queue, and resolves when that child answers \<^verbatim>\<open>start/done\<close>.
\<close>

theorem failed_start_reverts_to_absent:
  "start m sid config arrivals = (m', Rejected err) \<longrightarrow>
     entry_state m' sid = Absent \<and>
     getServiceInfo c m' sid arrivals' = (m', Resolved (JObj [(''status'', SERVICE_STATUS_INIT c)])) \<and>
     (\<exists>sub. (Map_get (subprocesses m) sid = Some (Some sub) \<or>
              entry_state m sid \<noteq> Active \<and> sub = snd (fork m)) \<and>
            snd (invoke sub ''start'' config arrivals) = Rejected err) \<and>
     start m' sid config' [[reply ''start/done'' p]] =
       (m'\<lparr>forked := Suc (forked m'),
           subprocesses := subprocesses m' @
             [(sid, Some \<lparr>pid = forked m', sent = [JObj [(''type'', JStr ''start''), (''payload'', config')]],
                         messageQueue = []\<rparr>)]\<rparr>,
        Resolved JUndefined)"
proof
  assume a: "start m sid config arrivals = (m', Rejected err)"
  from start_rejected [OF a] obtain sub where sub:
    "Map_get (subprocesses m) sid = Some (Some sub) \<or> entry_state m sid \<noteq> Active \<and> sub = snd (fork m)"
    "snd (invoke sub ''start'' config arrivals) = Rejected err"
    "subprocesses m' = Map_delete (subprocesses m) sid" by blast
  from sub(3) have absent: "Map_get (subprocesses m') sid = None" by (simp add: Map_get_delete)
  then have "entry_state m' sid = Absent" by (simp add: entry_state_simps)
  moreover from absent have "getServiceInfo c m' sid arrivals' = (m', Resolved (JObj [(''status'', SERVICE_STATUS_INIT c)]))"
    by (simp add: getServiceInfo_def)
  moreover from sub(1,2) have "\<exists>sub. (Map_get (subprocesses m) sid = Some (Some sub) \<or>
              entry_state m sid \<noteq> Active \<and> sub = snd (fork m)) \<and>
            snd (invoke sub ''start'' config arrivals) = Rejected err" by blast
  moreover note start_fresh_done [OF absent, of config' p]
  ultimately show "entry_state m' sid = Absent \<and>
     getServiceInfo c m' sid arrivals' = (m', Resolved (JObj [(''status'', SERVICE_STATUS_INIT c)])) \<and>
     (\<exists>sub. (Map_get (subprocesses m) sid = Some (Some sub) \<or>
              entry_state m sid \<noteq> Active \<and> sub = snd (fork m)) \<and>
            snd (invoke sub ''start'' config arrivals) = Rejected err) \<and>
     start m' sid config' [[reply ''start/done'' p]] =
       (m'\<lparr>forked := Suc (forked m'),
           subprocesses := subprocesses m' @
             [(sid, Some \<lparr>pid = forked m', sent = [JObj [(''type'', JStr ''start''), (''payload'', config')]],
                         messageQueue = []\<rparr>)]\<rparr>,
        Resolved JUndefined)"
    by (intro conjI)
qed

theorem failed_start_reverts_to_absent_witness:
  "start init ''svc1'' (JObj [(''port'', JNum 1080)]) [[reply ''start/error'' (JStr ''address in use'')]] =
     (\<lparr>subprocesses = [], forked = 1, killed = []\<rparr>, Rejected (Error (JStr ''address in use''))) \<and>
   entry_state \<lparr>subprocesses = [], forked = 1, killed = []\<rparr> ''svc1'' = Absent \<and>
   getServiceInfo c0 \<lparr>subprocesses = [], forked = 1, killed = []\<rparr> ''svc1'' [] =
     (\<lparr>subprocesses = [], forked = 1, killed = []\<rparr>, Resolved (JObj [(''status'', JStr ''INIT'')])) \<and>
   start \<lparr>subprocesses = [], forked = 1, killed = []\<rparr> ''svc1'' (JObj [(''port'', JNum 1081)])
       [[reply ''start/done'' JNull]] =
     (\<lparr>subprocesses =
         [(''svc1'', Some \<lparr>pid = 1,
             sent = [JObj [(''type'', JStr ''start''), (''payload'', JObj [(''port'', JNum 1081)])]],
             messageQueue = []\<rparr>)],
       forked = 2, killed = []\<rparr>,
      Resolved JUndefined)"
proof -
  let ?m' = "\<lparr>subprocesses = [], forked = 1, killed = []\<rparr>"
  have s: "start init ''svc1'' (JObj [(''port'', JNum 1080)]) [[reply ''start/error'' (JStr ''address in use'')]] =
     (?m', Rejected (Error (JStr ''address in use'')))"
    by (simp add: registry_defs eval_defs)
  from failed_start_reverts_to_absent [where m = init and sid = "''svc1''" and config = "JObj [(''port'', JNum 1080)]"
      and arrivals = "[[reply ''start/error'' (JStr ''address in use'')]]" and m' = ?m'
      and err = "Error (JStr ''address in use'')" and c = c0 and arrivals' = "[]"
      and config' = "JObj [(''port'', JNum 1081)]" and p = JNull] s
  have r1: "entry_state ?m' ''svc1'' = Absent"
    and r2: "getServiceInfo c0 ?m' ''svc1'' [] = (?m', Resolved (JObj [(''status'', JStr ''INIT'')]))"
    and r3: "start ?m' ''svc1'' (JObj [(''port'', JNum 1081)]) [[reply ''start/done'' JNull]] =
     (\<lparr>subprocesses =
         [(''svc1'', Some \<lparr>pid = 1,
             sent = [JObj [(''type'', JStr ''start''), (''payload'', JObj [(''port'', JNum 1081)])]],
             messageQueue = []\<rparr>)],
       forked = 2, killed = []\<rparr>,
      Resolved JUndefined)"
    by (simp_all add: c0_def)
  from s r1 r2 r3 show ?thesis by (intro conjI)
qed






end
